theory Spec2Isabelle
  imports Main "HOL-Library.AList"
begin

section \<open>JavaScript values, strings and objects\<close>

text \<open>
  The logger is a thin TypeScript wrapper around the pino logging library. The repository
  holds two versions of the wrapper module: \<^verbatim>\<open>src/index.ts\<close>, which caches a single root
  logger, and a second module (here called the keyed module) which caches one root logger
  per service name and reads the log directory from the environment. Both are embedded;
  the methods \<^verbatim>\<open>child\<close>, \<^verbatim>\<open>setLogLevel\<close> and the five leveled methods are literally
  the same in the two modules and are embedded once.

  Strings are lists of 8-bit code units. Values that can occur as fields of a bindings
  object or as supplementary log arguments are the primitive JavaScript values.
\<close>

datatype jsval = JUndefined | JNull | JBool bool | JNum int | JStr string

text \<open>
  A plain object literal is the list of its own properties in insertion order, with
  distinct keys. Reading a property that is absent gives \<^verbatim>\<open>undefined\<close>.
\<close>

type_synonym bindings = "(string \<times> jsval) list"

definition get_prop :: "bindings \<Rightarrow> string \<Rightarrow> jsval" where
  "get_prop obj k = (case map_of obj k of None \<Rightarrow> JUndefined | Some v \<Rightarrow> v)"

text \<open>\<^verbatim>\<open>String.prototype.trim\<close> and \<^verbatim>\<open>toLowerCase\<close> on 8-bit code units.\<close>

definition is_white_space :: "char \<Rightarrow> bool" where
  "is_white_space c \<longleftrightarrow>
     (of_char c :: nat) \<in> {0x09, 0x0A, 0x0B, 0x0C, 0x0D, 0x20, 0xA0}"

definition trim :: "string \<Rightarrow> string" where
  "trim s = rev (dropWhile is_white_space (rev (dropWhile is_white_space s)))"

definition lower_char :: "char \<Rightarrow> char" where
  "lower_char c =
     (let n = (of_char c :: nat) in
      if (0x41 \<le> n \<and> n \<le> 0x5A) \<or> (0xC0 \<le> n \<and> n \<le> 0xDE \<and> n \<noteq> 0xD7)
      then char_of (n + 0x20) else c)"

definition toLowerCase :: "string \<Rightarrow> string" where
  "toLowerCase s = map lower_char s"

section \<open>The pino backend\<close>

text \<open>
  pino is an external library. Its interface is modelled as far as the wrapper uses it:
  the factory and \<^verbatim>\<open>handle.child\<close> return a new handle, \<^verbatim>\<open>handle.level = l\<close> stores a
  threshold, and every call made on the backend is recorded in order, the way the test
  suite's mocks record them. A handle is its index in the table of handles; a derived
  handle starts with the threshold its parent has at that moment.
\<close>

datatype LogLevel = FATAL | ERROR | WARN | INFO | DEBUG

fun LogLevel_value :: "LogLevel \<Rightarrow> string" where
  "LogLevel_value FATAL = ''fatal''"
| "LogLevel_value ERROR = ''error''"
| "LogLevel_value WARN = ''warn''"
| "LogLevel_value INFO = ''info''"
| "LogLevel_value DEBUG = ''debug''"

record target_options =
  destination :: string
  mkdir :: bool
  sync :: bool

record transport_target =
  target :: string
  target_level :: string
  target_opts :: target_options

text \<open>The production configuration's \<^verbatim>\<open>timestamp\<close> function, which renders
  \<^verbatim>\<open>,"timestamp":"<ISO-8601 time>"\<close>; only its presence is modelled.\<close>

datatype timestamp_fn = IsoTimestamp

record LoggerOptions =
  transport_targets :: "transport_target list option"
  opt_level :: string
  timestamp :: "timestamp_fn option"
  messageKey :: "string option"
  base :: bindings

text \<open>The module-level \<^verbatim>\<open>prettyStream\<close>, built once by \<^verbatim>\<open>pino-pretty\<close>.\<close>

datatype DestinationStream = prettyStream

datatype pino_call =
  Call_pinoFactory LoggerOptions "DestinationStream option"
| Call_child nat bindings
| Set_level nat string
| Call_method string nat string "jsval list"

record pino_state =
  handles :: "string list"
  calls :: "pino_call list"

definition pinoFactory ::
  "LoggerOptions \<Rightarrow> DestinationStream option \<Rightarrow> pino_state \<Rightarrow> nat \<times> pino_state" where
  "pinoFactory opts stream p =
     (length (handles p),
      p\<lparr>handles := handles p @ [opt_level opts],
        calls := calls p @ [Call_pinoFactory opts stream]\<rparr>)"

definition pino_child :: "nat \<Rightarrow> bindings \<Rightarrow> pino_state \<Rightarrow> nat \<times> pino_state" where
  "pino_child h b p =
     (length (handles p),
      p\<lparr>handles := handles p @ [handles p ! h],
        calls := calls p @ [Call_child h b]\<rparr>)"

definition pino_set_level :: "nat \<Rightarrow> string \<Rightarrow> pino_state \<Rightarrow> pino_state" where
  "pino_set_level h l p =
     p\<lparr>handles := (handles p)[h := l], calls := calls p @ [Set_level h l]\<rparr>"

text \<open>
  A leveled method of a handle either throws or returns; what it does is the backend's
  business, so the wrapper's leveled methods take the backend's methods as a parameter.
  \<open>pino_recording\<close> is the backend that records the call and returns.
\<close>

datatype js_error = Thrown string

type_synonym pino_method =
  "string \<Rightarrow> nat \<Rightarrow> string \<Rightarrow> jsval list \<Rightarrow> pino_state \<Rightarrow> js_error + pino_state"

definition pino_recording :: pino_method where
  "pino_recording m h msg args p = Inr (p\<lparr>calls := calls p @ [Call_method m h msg args]\<rparr>)"

section \<open>The Logger class\<close>

text \<open>
  A \<^verbatim>\<open>Logger\<close> object has the two private fields of the class. Objects live in a store,
  \<open>loggers\<close>, and a reference to a Logger is its index there; \<^verbatim>\<open>new Logger\<close> appends.
\<close>

record Logger =
  logger :: nat
  children :: "nat list"

record heap =
  loggers :: "Logger list"
  pino :: pino_state

record process_env =
  NODE_ENV :: "string option"
  npm_package_version :: "string option"
  LOG_DIR :: "string option"

text \<open>The constructor's parameter: absent, a service name, or a pino handle.\<close>

datatype ctor_param = P_undefined | P_string string | P_logger nat

definition env_value :: "string option \<Rightarrow> jsval" where
  "env_value v = (case v of None \<Rightarrow> JUndefined | Some s \<Rightarrow> JStr s)"

definition prodConfig :: "string \<Rightarrow> process_env \<Rightarrow> string \<Rightarrow> LoggerOptions" where
  "prodConfig dest env serviceName =
     \<lparr>transport_targets =
        Some [\<lparr>target = ''pino/file'', target_level = ''info'',
               target_opts = \<lparr>destination = dest, mkdir = True, sync = False\<rparr>\<rparr>],
      opt_level = ''info'',
      timestamp = Some IsoTimestamp,
      messageKey = Some ''message'',
      base = [(''env'', env_value (NODE_ENV env)),
              (''version'', env_value (npm_package_version env)),
              (''service'', JStr serviceName)]\<rparr>"

definition devConfig :: "string \<Rightarrow> LoggerOptions" where
  "devConfig serviceName =
     \<lparr>transport_targets = None,
      opt_level = ''debug'',
      timestamp = None,
      messageKey = None,
      base = [(''service'', JStr serviceName)]\<rparr>"

definition new_object :: "nat \<Rightarrow> 'a heap_scheme \<Rightarrow> nat \<times> 'a heap_scheme" where
  "new_object h w =
     (length (loggers w), w\<lparr>loggers := loggers w @ [\<lparr>logger = h, children = []\<rparr>]\<rparr>)"

text \<open>
  The constructor. The two modules differ in two module-level values only, which are the
  first two parameters here: \<open>dflt\<close> is \<^verbatim>\<open>DEFAULT_SERVICE_NAME\<close> and \<open>dest\<close> is the
  production log file (\<^verbatim>\<open>logFile\<close> in the keyed module,
  \<^verbatim>\<open>path.join(__dirname, '../logs/app.log')\<close> in \<^verbatim>\<open>src/index.ts\<close>).
\<close>

definition Logger_constructor ::
  "string \<Rightarrow> string \<Rightarrow> process_env \<Rightarrow> ctor_param \<Rightarrow> 'a heap_scheme \<Rightarrow> nat \<times> 'a heap_scheme" where
  "Logger_constructor dflt dest penv param w =
     (case param of
        P_logger h \<Rightarrow> new_object h w
      | _ \<Rightarrow>
         (let serviceName = (case param of P_string s \<Rightarrow> s | _ \<Rightarrow> dflt);
              envRaw = (case NODE_ENV penv of None \<Rightarrow> '''' | Some s \<Rightarrow> s);
              env = toLowerCase (trim envRaw);
              (h, p) = (if env = ''production''
                        then pinoFactory (prodConfig dest penv serviceName) None (pino w)
                        else pinoFactory (devConfig serviceName) (Some prettyStream) (pino w))
          in new_object h (w\<lparr>pino := p\<rparr>)))"

text \<open>
  \<^verbatim>\<open>child\<close>: the \<^verbatim>\<open>name\<close> property is read, the rest pattern drops it, the spread copies
  the rest and then sets \<^verbatim>\<open>module\<close> (in place if the rest already has that key, at the
  end otherwise).
\<close>

definition childBindings :: "bindings \<Rightarrow> bindings" where
  "childBindings b =
     (let moduleName = get_prop b ''name'';
          rest = AList.delete ''name'' b
      in AList.update ''module'' moduleName rest)"

definition child :: "nat \<Rightarrow> bindings \<Rightarrow> 'a heap_scheme \<Rightarrow> nat \<times> 'a heap_scheme" where
  "child this b w =
     (let (childLogger, p) = pino_child (logger (loggers w ! this)) (childBindings b) (pino w);
          (childInstance, w1) = new_object childLogger (w\<lparr>pino := p\<rparr>);
          w2 = w1\<lparr>loggers := (loggers w1)
                  [this := (loggers w1 ! this)
                     \<lparr>children := children (loggers w1 ! this) @ [childInstance]\<rparr>]\<rparr>
      in (childInstance, w2))"

text \<open>
  \<^verbatim>\<open>Array.prototype.forEach\<close> with a callback that may fail to return: the callback is
  run on each element in order, and the state is passed along.
\<close>

primrec forEach :: "('x \<Rightarrow> 's \<Rightarrow> 's option) \<Rightarrow> 'x list \<Rightarrow> 's \<Rightarrow> 's option" where
  "forEach f [] s = Some s"
| "forEach f (x # xs) s = Option.bind (f x s) (forEach f xs)"

lemma forEach_mono [partial_function_mono]:
  assumes "\<And>x s. mono_option (\<lambda>g. F g x s)"
  shows "mono_option (\<lambda>g. forEach (F g) xs s)"
proof (induction xs arbitrary: s)
  case Nil
  show ?case by (simp add: option.const_mono)
next
  case (Cons x xs)
  show ?case
    unfolding forEach.simps
    by (rule bind_mono) (rule assms, rule Cons.IH)
qed

text \<open>
  \<^verbatim>\<open>setLogLevel\<close> recurses through the store. On a store with a cycle of children the
  JavaScript does not return; the model's value is then \<open>None\<close>.
\<close>

partial_function (option) setLogLevel ::
  "LogLevel \<Rightarrow> nat \<Rightarrow> 'a heap_scheme \<Rightarrow> 'a heap_scheme option" where
  "setLogLevel level this w =
     forEach (\<lambda>child w'. setLogLevel level child w')
       (children (loggers w ! this))
       (w\<lparr>pino := pino_set_level (logger (loggers w ! this)) (LogLevel_value level) (pino w)\<rparr>)"

declare setLogLevel.simps [code]

text \<open>The five leveled methods forward to the handle's method of the same name.\<close>

definition forward ::
  "pino_method \<Rightarrow> string \<Rightarrow> nat \<Rightarrow> string \<Rightarrow> jsval list \<Rightarrow> 'a heap_scheme
     \<Rightarrow> js_error + 'a heap_scheme" where
  "forward backend m this msg args w =
     (case backend m (logger (loggers w ! this)) msg args (pino w) of
        Inl e \<Rightarrow> Inl e
      | Inr p \<Rightarrow> Inr (w\<lparr>pino := p\<rparr>))"

definition fatal ::
  "pino_method \<Rightarrow> nat \<Rightarrow> string \<Rightarrow> jsval list \<Rightarrow> 'a heap_scheme \<Rightarrow> js_error + 'a heap_scheme"
  where "fatal backend this message args w = forward backend ''fatal'' this message args w"

definition error ::
  "pino_method \<Rightarrow> nat \<Rightarrow> string \<Rightarrow> jsval list \<Rightarrow> 'a heap_scheme \<Rightarrow> js_error + 'a heap_scheme"
  where "error backend this message args w = forward backend ''error'' this message args w"

definition warn ::
  "pino_method \<Rightarrow> nat \<Rightarrow> string \<Rightarrow> jsval list \<Rightarrow> 'a heap_scheme \<Rightarrow> js_error + 'a heap_scheme"
  where "warn backend this message args w = forward backend ''warn'' this message args w"

definition info ::
  "pino_method \<Rightarrow> nat \<Rightarrow> string \<Rightarrow> jsval list \<Rightarrow> 'a heap_scheme \<Rightarrow> js_error + 'a heap_scheme"
  where "info backend this message args w = forward backend ''info'' this message args w"

definition debug ::
  "pino_method \<Rightarrow> nat \<Rightarrow> string \<Rightarrow> jsval list \<Rightarrow> 'a heap_scheme \<Rightarrow> js_error + 'a heap_scheme"
  where "debug backend this message args w = forward backend ''debug'' this message args w"

section \<open>The keyed module: one root per service name\<close>

text \<open>
  \<^verbatim>\<open>Logger.instances\<close> is a plain object \<^verbatim>\<open>{}\<close>: reading \<^verbatim>\<open>Logger.instances[name]\<close>
  finds an own property, or else a property of \<^verbatim>\<open>Object.prototype\<close>, or else
  \<^verbatim>\<open>undefined\<close>. Own properties are Logger references; the inherited ones are functions and
  objects of the runtime, all truthy.
\<close>

definition Object_prototype_properties :: "string list" where
  "Object_prototype_properties =
     [''constructor'', ''__defineGetter__'', ''__defineSetter__'', ''hasOwnProperty'',
      ''__lookupGetter__'', ''__lookupSetter__'', ''isPrototypeOf'',
      ''propertyIsEnumerable'', ''toString'', ''valueOf'', ''__proto__'',
      ''toLocaleString'']"

datatype instance_value = A_Logger nat | Inherited string

definition read_instances :: "(string \<times> nat) list \<Rightarrow> string \<Rightarrow> instance_value option" where
  "read_instances inst name =
     (case map_of inst name of
        Some r \<Rightarrow> Some (A_Logger r)
      | None \<Rightarrow> if name \<in> set Object_prototype_properties then Some (Inherited name) else None)"

record keyed_module = heap +
  instances :: "(string \<times> nat) list"
  logFile :: string

definition DEFAULT_SERVICE_NAME :: string where
  "DEFAULT_SERVICE_NAME = ''@juntu/logger''"

text \<open>
  Loading the module computes \<^verbatim>\<open>logDir\<close> and \<^verbatim>\<open>logFile\<close> from the environment of that
  moment. \<^verbatim>\<open>path.join\<close> belongs to the runtime and is a parameter, as is the working
  directory.
\<close>

definition load_keyed_module ::
  "(string \<Rightarrow> string \<Rightarrow> string) \<Rightarrow> string \<Rightarrow> process_env \<Rightarrow> keyed_module" where
  "load_keyed_module path_join cwd penv =
     (let logDir = (case LOG_DIR penv of None \<Rightarrow> path_join cwd ''logs'' | Some d \<Rightarrow> d)
      in \<lparr>loggers = [], pino = \<lparr>handles = [], calls = []\<rparr>,
          instances = [], logFile = path_join logDir ''app.log''\<rparr>)"

definition getInstance ::
  "process_env \<Rightarrow> string option \<Rightarrow> keyed_module \<Rightarrow> instance_value \<times> keyed_module" where
  "getInstance penv serviceName w =
     (let name = (case serviceName of
                    None \<Rightarrow> DEFAULT_SERVICE_NAME
                  | Some s \<Rightarrow> if s = [] then DEFAULT_SERVICE_NAME else s)
      in case read_instances (instances w) name of
           Some v \<Rightarrow> (v, w)
         | None \<Rightarrow>
            (let (r, w1) = Logger_constructor DEFAULT_SERVICE_NAME (logFile w) penv
                             (P_string name) w
             in (A_Logger r, w1\<lparr>instances := AList.update name r (instances w1)\<rparr>)))"

text \<open>The key under which \<open>getInstance\<close> looks: the argument, or the default when the
  argument is absent or empty.\<close>

definition service_key :: "string option \<Rightarrow> string" where
  "service_key serviceName =
     (case serviceName of None \<Rightarrow> DEFAULT_SERVICE_NAME
      | Some s \<Rightarrow> if s = [] then DEFAULT_SERVICE_NAME else s)"

text \<open>
  The registries the keyed module builds: every entry refers to a Logger of the store, and
  no two entries share a key or a Logger.
\<close>

definition registry_ok :: "keyed_module \<Rightarrow> bool" where
  "registry_ok k \<longleftrightarrow>
     (\<forall>r \<in> set (map snd (instances k)). r < length (loggers k)) \<and>
     distinct (map snd (instances k)) \<and> distinct (map fst (instances k))"

section \<open>The module \<^verbatim>\<open>src/index.ts\<close>: a single root\<close>

record single_module = heap +
  Logger_instance :: "nat option"
  default_service_name :: string
  dirname :: string

text \<open>\<^verbatim>\<open>pkg.name\<close> comes from \<^verbatim>\<open>package.json\<close> and \<^verbatim>\<open>__dirname\<close> from the runtime.\<close>

definition load_index_ts :: "string option \<Rightarrow> string \<Rightarrow> single_module" where
  "load_index_ts pkg_name dir =
     \<lparr>loggers = [], pino = \<lparr>handles = [], calls = []\<rparr>,
      Logger_instance = None,
      default_service_name = (case pkg_name of None \<Rightarrow> ''ads-mqtt'' | Some n \<Rightarrow> n),
      dirname = dir\<rparr>"

definition getInstance_index_ts ::
  "(string \<Rightarrow> string \<Rightarrow> string) \<Rightarrow> process_env \<Rightarrow> string option \<Rightarrow> single_module
     \<Rightarrow> nat \<times> single_module" where
  "getInstance_index_ts path_join penv serviceName w =
     (case Logger_instance w of
        None \<Rightarrow>
          (let (r, w1) = Logger_constructor (default_service_name w)
                           (path_join (dirname w) ''../logs/app.log'') penv
                           (case serviceName of None \<Rightarrow> P_undefined | Some s \<Rightarrow> P_string s) w
           in (r, w1\<lparr>Logger_instance := Some r\<rparr>))
      | Some r \<Rightarrow> (r, w))"

section \<open>Well-formed stores and the tree below a node\<close>

text \<open>
  The stores the program builds. A child is allocated after its parent (\<open>ordered\<close>); no
  Logger is twice in a children list or in two children lists (\<open>one_parent\<close>); every
  Logger wraps a handle of the backend, and no two Loggers wrap the same handle.
\<close>

definition ordered :: "Logger list \<Rightarrow> bool" where
  "ordered ls \<longleftrightarrow>
     (\<forall>n \<in> set [0..<length ls]. \<forall>c \<in> set (children (ls ! n)). n < c \<and> c < length ls)"

definition one_parent :: "Logger list \<Rightarrow> bool" where
  "one_parent ls \<longleftrightarrow>
     (\<forall>n \<in> set [0..<length ls].
        distinct (children (ls ! n)) \<and>
        (\<forall>m \<in> set [0..<length ls].
           \<forall>c \<in> set (children (ls ! n)). c \<in> set (children (ls ! m)) \<longrightarrow> m = n))"

definition handles_ok :: "'a heap_scheme \<Rightarrow> bool" where
  "handles_ok w \<longleftrightarrow>
     (\<forall>n \<in> set [0..<length (loggers w)]. logger (loggers w ! n) < length (handles (pino w))) \<and>
     distinct (map logger (loggers w))"

definition wf_heap :: "'a heap_scheme \<Rightarrow> bool" where
  "wf_heap w \<longleftrightarrow> ordered (loggers w) \<and> one_parent (loggers w) \<and> handles_ok w"

text \<open>
  Depth-first pre-order of the tree below a node, as the specification words it: the
  node first, then the pre-order of each child, in the order of the children list.
\<close>

function pre_order :: "Logger list \<Rightarrow> nat \<Rightarrow> nat list" where
  "pre_order ls n =
     n # concat (map (pre_order ls) (filter (\<lambda>c. n < c \<and> c < length ls) (children (ls ! n))))"
  by pat_completeness auto
termination
  by (relation "measure (\<lambda>(ls, n). length ls - n)") auto

declare pre_order.simps [simp del]

definition child_rel :: "Logger list \<Rightarrow> (nat \<times> nat) set" where
  "child_rel ls = {(p, c). p < length ls \<and> c \<in> set (children (ls ! p))}"

definition threshold :: "'a heap_scheme \<Rightarrow> nat \<Rightarrow> string" where
  "threshold w n = handles (pino w) ! logger (loggers w ! n)"

text \<open>Setting the level of the handles of a list of Loggers, one after the other.\<close>

definition set_levels :: "Logger list \<Rightarrow> string \<Rightarrow> nat list \<Rightarrow> pino_state \<Rightarrow> pino_state" where
  "set_levels ls l ns p = fold (\<lambda>n. pino_set_level (logger (ls ! n)) l) ns p"


text \<open>A list of Loggers in which no Logger comes before one of its ancestors; \<open>r\<close> is the
  relation between an ancestor and its descendant.\<close>

definition ancestors_first :: "(nat \<times> nat) set \<Rightarrow> nat list \<Rightarrow> bool" where
  "ancestors_first r l \<longleftrightarrow> (\<forall>xs a ys. l = xs @ a # ys \<longrightarrow> (\<forall>d \<in> set xs. (a, d) \<notin> r))"

text \<open>
  The states of the two modules that a program can reach: the module is loaded, and then
  \<open>getInstance\<close> and the methods are called on Loggers of the store.
\<close>

inductive reachable :: "keyed_module \<Rightarrow> bool" where
  load: "reachable (load_keyed_module path_join cwd penv)"
| getInstance: "reachable k \<Longrightarrow> reachable (snd (getInstance penv serviceName k))"
| child: "reachable k \<Longrightarrow> this < length (loggers k) \<Longrightarrow> reachable (snd (child this b k))"
| setLogLevel:
    "reachable k \<Longrightarrow> this < length (loggers k) \<Longrightarrow> setLogLevel level this k = Some k' \<Longrightarrow>
       reachable k'"
| leveled:
    "reachable k \<Longrightarrow> this < length (loggers k) \<Longrightarrow>
       forward pino_recording m this msg args k = Inr k' \<Longrightarrow> reachable k'"

inductive reachable_index_ts :: "single_module \<Rightarrow> bool" where
  load: "reachable_index_ts (load_index_ts pkg_name dir)"
| getInstance:
    "reachable_index_ts k \<Longrightarrow>
       reachable_index_ts (snd (getInstance_index_ts path_join penv serviceName k))"
| child:
    "reachable_index_ts k \<Longrightarrow> this < length (loggers k) \<Longrightarrow>
       reachable_index_ts (snd (child this b k))"
| setLogLevel:
    "reachable_index_ts k \<Longrightarrow> this < length (loggers k) \<Longrightarrow>
       setLogLevel level this k = Some k' \<Longrightarrow> reachable_index_ts k'"
| leveled:
    "reachable_index_ts k \<Longrightarrow> this < length (loggers k) \<Longrightarrow>
       forward pino_recording m this msg args k = Inr k' \<Longrightarrow> reachable_index_ts k'"

section \<open>Deriving a child\<close>

lemma map_of_childBindings:
  "map_of (childBindings b) =
     ((map_of b)(''name'' := None))(''module'' \<mapsto> get_prop b ''name'')"
  by (simp add: childBindings_def Let_def update_conv' delete_conv')

lemma name_notin_childBindings: "''name'' \<notin> fst ` set (childBindings b)"
proof -
  have "''name'' \<notin> dom (map_of (childBindings b))"
    by (simp add: map_of_childBindings)
  then show ?thesis by (simp add: dom_map_of_conv_image_fst)
qed

lemma child_unfold:
  "child this b w =
     (length (loggers w),
      w\<lparr>loggers :=
          (loggers w @ [\<lparr>logger = length (handles (pino w)), children = []\<rparr>])
          [this := ((loggers w @ [\<lparr>logger = length (handles (pino w)), children = []\<rparr>]) ! this)
             \<lparr>children :=
                children ((loggers w @ [\<lparr>logger = length (handles (pino w)), children = []\<rparr>])
                            ! this) @ [length (loggers w)]\<rparr>],
        pino := (pino w)
          \<lparr>handles := handles (pino w) @ [handles (pino w) ! logger (loggers w ! this)],
            calls := calls (pino w) @
                       [Call_child (logger (loggers w ! this)) (childBindings b)]\<rparr>\<rparr>)"
  by (simp add: child_def pino_child_def new_object_def Let_def)

text \<open>\<^verbatim>\<open>new Logger(childLogger)\<close> in \<open>child\<close> is the constructor's first branch.\<close>

lemma Logger_constructor_child: "Logger_constructor dflt dest penv (P_logger h) w = new_object h w"
  by (simp add: Logger_constructor_def)

text \<open>
  Claim C3. When the bindings have a \<open>name\<close> field with value \<open>n\<close>, \<open>child\<close> makes exactly
  one backend call, the child derivation on the caller's handle, with bindings that are
  the remaining fields together with \<open>module\<close> bound to \<open>n\<close> and that have no \<open>name\<close> key;
  the handle the backend returns is wrapped in a new Logger, which is appended to the
  caller's children list and returned.
\<close>

theorem child_renames_name_to_module:
  assumes "map_of b ''name'' = Some n" and "this < length (loggers w)"
  shows "case child this b w of (c, w') \<Rightarrow>
           calls (pino w') =
             calls (pino w) @ [Call_child (logger (loggers w ! this)) (childBindings b)] \<and>
           map_of (childBindings b) = (map_of b |` (- {''name''}))(''module'' \<mapsto> n) \<and>
           ''name'' \<notin> fst ` set (childBindings b) \<and>
           c = length (loggers w) \<and>
           length (loggers w') = Suc (length (loggers w)) \<and>
           loggers w' ! c =
             \<lparr>logger = fst (pino_child (logger (loggers w ! this)) (childBindings b) (pino w)),
              children = []\<rparr> \<and>
           children (loggers w' ! this) = children (loggers w ! this) @ [c]"
proof -
  have m: "map_of (childBindings b) = (map_of b |` (- {''name''}))(''module'' \<mapsto> n)"
    using assms(1)
    by (auto simp: map_of_childBindings get_prop_def restrict_map_def fun_eq_iff)
  show ?thesis
    using assms(2) m name_notin_childBindings[of b]
    by (simp add: child_unfold nth_append pino_child_def)
qed

theorem child_renames_name_to_module_witness:
  "map_of [(''name'', JStr ''modA''), (''foo'', JStr ''bar'')] ''name'' = Some (JStr ''modA'') \<and>
   (case child 0 [(''name'', JStr ''modA''), (''foo'', JStr ''bar'')]
           \<lparr>loggers = [\<lparr>logger = 0, children = []\<rparr>],
            pino = \<lparr>handles = [''debug''], calls = []\<rparr>\<rparr> of
      (c, w') \<Rightarrow>
        calls (pino w') = [Call_child 0 [(''foo'', JStr ''bar''), (''module'', JStr ''modA'')]] \<and>
        c = 1 \<and>
        loggers w' = [\<lparr>logger = 0, children = [1]\<rparr>, \<lparr>logger = 1, children = []\<rparr>])"
  using child_renames_name_to_module
    [of "[(''name'', JStr ''modA''), (''foo'', JStr ''bar'')]" "JStr ''modA''" 0
        "\<lparr>loggers = [\<lparr>logger = 0, children = []\<rparr>],
          pino = \<lparr>handles = [''debug''], calls = []\<rparr>\<rparr>"]
  by (simp add: child_unfold childBindings_def get_prop_def)

lemma distinct_childBindings:
  "distinct (map fst b) \<Longrightarrow> distinct (map fst (childBindings b))"
  by (simp add: childBindings_def Let_def distinct_update distinct_delete)

lemma filter_key_distinct:
  "distinct (map fst al) \<Longrightarrow> map_of al k = Some v \<Longrightarrow>
     filter (\<lambda>kv. fst kv = k) al = [(k, v)]"
proof (induction al)
  case Nil
  then show ?case by simp
next
  case (Cons a al)
  show ?case
  proof (cases "fst a = k")
    case True
    with Cons.prems have "a = (k, v)" by (cases a) simp
    moreover from True Cons.prems have "k \<notin> fst ` set al" by simp
    then have "filter (\<lambda>kv. fst kv = k) al = []"
      unfolding filter_empty_conv by (metis imageI)
    ultimately show ?thesis by simp
  next
    case False
    with Cons show ?thesis by (cases a) (simp split: if_splits)
  qed
qed

text \<open>
  Claim C10. When the bindings have both a \<open>name\<close> and a \<open>module\<close> field, the bindings
  handed to the backend bind \<open>module\<close> to the value of \<open>name\<close>, and to nothing else: the
  caller's \<open>module\<close> value is overwritten.
\<close>

theorem child_name_overwrites_module:
  assumes "distinct (map fst b)"
    and "map_of b ''name'' = Some n" and "map_of b ''module'' = Some m"
  shows "calls (pino (snd (child this b w))) =
           calls (pino w) @ [Call_child (logger (loggers w ! this)) (childBindings b)] \<and>
         distinct (map fst (childBindings b)) \<and>
         map_of (childBindings b) ''module'' = Some n \<and>
         filter (\<lambda>kv. fst kv = ''module'') (childBindings b) = [(''module'', n)]"
proof -
  have d: "distinct (map fst (childBindings b))"
    using assms(1) by (rule distinct_childBindings)
  have v: "map_of (childBindings b) ''module'' = Some n"
    using assms(2) by (simp add: map_of_childBindings get_prop_def)
  have f: "filter (\<lambda>kv. fst kv = ''module'') (childBindings b) = [(''module'', n)]"
    using d v by (rule filter_key_distinct)
  show ?thesis using d v f by (simp add: child_unfold)
qed

theorem child_name_overwrites_module_witness:
  "distinct (map fst [(''module'', JStr ''mine''), (''name'', JStr ''modA'')]) \<and>
   map_of [(''module'', JStr ''mine''), (''name'', JStr ''modA'')] ''name'' = Some (JStr ''modA'') \<and>
   map_of [(''module'', JStr ''mine''), (''name'', JStr ''modA'')] ''module'' = Some (JStr ''mine'') \<and>
   calls (pino (snd (child 0 [(''module'', JStr ''mine''), (''name'', JStr ''modA'')]
                      \<lparr>loggers = [\<lparr>logger = 0, children = []\<rparr>],
                       pino = \<lparr>handles = [''debug''], calls = []\<rparr>\<rparr>))) =
     [Call_child 0 [(''module'', JStr ''modA'')]]"
  using child_name_overwrites_module
    [of "[(''module'', JStr ''mine''), (''name'', JStr ''modA'')]" "JStr ''modA''" "JStr ''mine''" 0
        "\<lparr>loggers = [\<lparr>logger = 0, children = []\<rparr>],
          pino = \<lparr>handles = [''debug''], calls = []\<rparr>\<rparr>"]
  by (simp add: childBindings_def get_prop_def)

section \<open>The leveled methods\<close>

lemma child_logger:
  "logger (loggers (snd (child this b w)) ! length (loggers w)) = length (handles (pino w))"
  by (cases "this = length (loggers w)") (simp_all add: child_unfold nth_list_update)

text \<open>
  Claim C8. Each of \<open>fatal\<close>, \<open>error\<close>, \<open>warn\<close>, \<open>info\<close>, \<open>debug\<close> calls the method of the
  same name on the Logger's own handle with the same message and the same supplementary
  arguments in the same order; what the backend throws is what the caller gets, and what
  the backend returns is the only change of state. With the recording backend exactly one
  call is recorded, also when the Logger is one that \<open>child\<close> has just derived, whose
  handle is the one the backend's child derivation returned.
\<close>

theorem leveled_methods_forward:
  "fatal backend this msg args w = forward backend ''fatal'' this msg args w \<and>
   error backend this msg args w = forward backend ''error'' this msg args w \<and>
   warn backend this msg args w = forward backend ''warn'' this msg args w \<and>
   info backend this msg args w = forward backend ''info'' this msg args w \<and>
   debug backend this msg args w = forward backend ''debug'' this msg args w \<and>
   (\<forall>m. forward backend m this msg args w =
      (case backend m (logger (loggers w ! this)) msg args (pino w) of
         Inl e \<Rightarrow> Inl e | Inr p \<Rightarrow> Inr (w\<lparr>pino := p\<rparr>))) \<and>
   (\<forall>m. forward pino_recording m this msg args w =
      Inr (w\<lparr>pino := (pino w)\<lparr>calls := calls (pino w) @
             [Call_method m (logger (loggers w ! this)) msg args]\<rparr>\<rparr>)) \<and>
   (\<forall>m. forward pino_recording m (fst (child this b w)) msg args (snd (child this b w)) =
      Inr ((snd (child this b w))\<lparr>pino := (pino (snd (child this b w)))
            \<lparr>calls := calls (pino w) @
               [Call_child (logger (loggers w ! this)) (childBindings b),
                Call_method m
                  (fst (pino_child (logger (loggers w ! this)) (childBindings b) (pino w)))
                  msg args]\<rparr>\<rparr>))"
  using child_logger[of this b w]
  by (simp add: fatal_def error_def warn_def info_def debug_def forward_def pino_recording_def
      pino_child_def) (simp add: child_unfold)

section \<open>Constructing a root\<close>

lemma Logger_constructor_root:
  "param = P_undefined \<or> param = P_string s \<Longrightarrow>
   Logger_constructor dflt dest penv param w =
     (length (loggers w),
      w\<lparr>loggers := loggers w @ [\<lparr>logger = length (handles (pino w)), children = []\<rparr>],
        pino := snd (let name = (case param of P_string s \<Rightarrow> s | _ \<Rightarrow> dflt) in
                     if toLowerCase (trim (case NODE_ENV penv of None \<Rightarrow> [] | Some e \<Rightarrow> e))
                          = ''production''
                     then pinoFactory (prodConfig dest penv name) None (pino w)
                     else pinoFactory (devConfig name) (Some prettyStream) (pino w))\<rparr>)"
  by (auto simp: Logger_constructor_def Let_def new_object_def pinoFactory_def
      split: prod.splits)

lemma Logger_constructor_string:
  "Logger_constructor dflt dest penv (P_string s) w =
     (length (loggers w),
      w\<lparr>loggers := loggers w @ [\<lparr>logger = length (handles (pino w)), children = []\<rparr>],
        pino := snd (if toLowerCase (trim (case NODE_ENV penv of None \<Rightarrow> [] | Some e \<Rightarrow> e))
                          = ''production''
                     then pinoFactory (prodConfig dest penv s) None (pino w)
                     else pinoFactory (devConfig s) (Some prettyStream) (pino w))\<rparr>)"
  by (simp add: Logger_constructor_root[where s = s])

lemma production_normalized: "toLowerCase (trim ''production'') = ''production''"
  by code_simp

lemma unset_normalized: "toLowerCase (trim []) = []"
  by (simp add: toLowerCase_def trim_def)

text \<open>
  Claim C7. A new root is built with one of two backend configurations, chosen by the
  trimmed, lower-cased environment indicator. \<open>production\<close> gives the production file
  configuration and no stream: one \<open>pino/file\<close> target of level \<open>info\<close> with the module's
  log file as destination, \<open>mkdir\<close> set and \<open>sync\<close> unset, level \<open>info\<close>, the timestamp
  function, message key \<open>message\<close>, and the base fields \<open>env\<close> (the indicator as it
  is in the environment), \<open>version\<close> and \<open>service\<close>. Anything else (unset included) gives
  the pretty stream with level \<open>debug\<close> and the base field \<open>service\<close> only. Constructing a
  root makes exactly one call of the backend factory, in the constructor and in either
  module's \<open>getInstance\<close>, with a service name or without one; a cached root makes none.
\<close>

theorem root_construction_selects_configuration:
  "let env = toLowerCase (trim (case NODE_ENV penv of None \<Rightarrow> [] | Some e \<Rightarrow> e));
       call = (\<lambda>name dest.
                 if env = ''production''
                 then Call_pinoFactory
                        \<lparr>transport_targets =
                           Some [\<lparr>target = ''pino/file'', target_level = ''info'',
                                  target_opts =
                                    \<lparr>destination = dest, mkdir = True, sync = False\<rparr>\<rparr>],
                         opt_level = ''info'', timestamp = Some IsoTimestamp,
                         messageKey = Some ''message'',
                         base =
                           [(''env'', case NODE_ENV penv of None \<Rightarrow> JUndefined
                                      | Some e \<Rightarrow> JStr e),
                            (''version'', case npm_package_version penv of None \<Rightarrow> JUndefined
                                          | Some v \<Rightarrow> JStr v),
                            (''service'', JStr name)]\<rparr>
                        None
                 else Call_pinoFactory
                        \<lparr>transport_targets = None, opt_level = ''debug'', timestamp = None,
                         messageKey = None, base = [(''service'', JStr name)]\<rparr>
                        (Some prettyStream))
   in calls (pino (snd (Logger_constructor dflt dest penv (P_string s) w))) =
        calls (pino w) @ [call s dest] \<and>
      calls (pino (snd (Logger_constructor dflt dest penv P_undefined w))) =
        calls (pino w) @ [call dflt dest] \<and>
      (s \<noteq> [] \<and> read_instances (instances k) s = None \<longrightarrow>
         calls (pino (snd (getInstance penv (Some s) k))) =
           calls (pino k) @ [call s (logFile k)]) \<and>
      (\<forall>v. s \<noteq> [] \<and> read_instances (instances k) s = Some v \<longrightarrow>
         getInstance penv (Some s) k = (v, k)) \<and>
      (Logger_instance m = None \<longrightarrow>
         calls (pino (snd (getInstance_index_ts path_join penv (Some s) m))) =
           calls (pino m) @ [call s (path_join (dirname m) ''../logs/app.log'')]) \<and>
      (\<forall>r. Logger_instance m = Some r \<longrightarrow>
         getInstance_index_ts path_join penv (Some s) m = (r, m)) \<and>
      (read_instances (instances k) ''@juntu/logger'' = None \<longrightarrow>
         calls (pino (snd (getInstance penv None k))) =
           calls (pino k) @ [call ''@juntu/logger'' (logFile k)] \<and>
         calls (pino (snd (getInstance penv (Some []) k))) =
           calls (pino k) @ [call ''@juntu/logger'' (logFile k)]) \<and>
      (\<forall>v. read_instances (instances k) ''@juntu/logger'' = Some v \<longrightarrow>
         getInstance penv None k = (v, k) \<and> getInstance penv (Some []) k = (v, k)) \<and>
      (Logger_instance m = None \<longrightarrow>
         calls (pino (snd (getInstance_index_ts path_join penv None m))) =
           calls (pino m) @
             [call (default_service_name m) (path_join (dirname m) ''../logs/app.log'')]) \<and>
      (\<forall>r. Logger_instance m = Some r \<longrightarrow>
         getInstance_index_ts path_join penv None m = (r, m))"
  by (simp add: Let_def Logger_constructor_root[where s = s]
      Logger_constructor_root[where s = "''@juntu/logger''"] getInstance_def
      getInstance_index_ts_def pinoFactory_def devConfig_def prodConfig_def env_value_def
      DEFAULT_SERVICE_NAME_def split: prod.splits)

theorem root_construction_selects_configuration_witness:
  "calls (pino (snd (getInstance \<lparr>NODE_ENV = None, npm_package_version = None, LOG_DIR = None\<rparr>
            (Some ''svcDev'')
            \<lparr>loggers = [], pino = \<lparr>handles = [], calls = []\<rparr>, instances = [],
             logFile = ''/srv/logs/app.log''\<rparr>))) =
     [Call_pinoFactory
        \<lparr>transport_targets = None, opt_level = ''debug'', timestamp = None,
         messageKey = None, base = [(''service'', JStr ''svcDev'')]\<rparr>
        (Some prettyStream)] \<and>
   calls (pino (snd (getInstance \<lparr>NODE_ENV = None, npm_package_version = None, LOG_DIR = None\<rparr>
            None
            \<lparr>loggers = [], pino = \<lparr>handles = [], calls = []\<rparr>, instances = [],
             logFile = ''/srv/logs/app.log''\<rparr>))) =
     [Call_pinoFactory
        \<lparr>transport_targets = None, opt_level = ''debug'', timestamp = None,
         messageKey = None, base = [(''service'', JStr ''@juntu/logger'')]\<rparr>
        (Some prettyStream)] \<and>
   getInstance \<lparr>NODE_ENV = Some '' Production '', npm_package_version = Some ''9.8.7'',
                LOG_DIR = None\<rparr>
      (Some ''svcDev'')
      \<lparr>loggers = [\<lparr>logger = 0, children = []\<rparr>],
       pino = \<lparr>handles = [''debug''], calls = []\<rparr>, instances = [(''svcDev'', 0)],
       logFile = ''/srv/logs/app.log''\<rparr> =
     (A_Logger 0,
      \<lparr>loggers = [\<lparr>logger = 0, children = []\<rparr>],
       pino = \<lparr>handles = [''debug''], calls = []\<rparr>, instances = [(''svcDev'', 0)],
       logFile = ''/srv/logs/app.log''\<rparr>) \<and>
   calls (pino (snd (getInstance_index_ts (\<lambda>a b. a @ ''/'' @ b)
            \<lparr>NODE_ENV = Some '' Production '', npm_package_version = Some ''9.8.7'',
             LOG_DIR = None\<rparr>
            (Some ''svcDev'')
            \<lparr>loggers = [], pino = \<lparr>handles = [], calls = []\<rparr>, Logger_instance = None,
             default_service_name = ''ads-mqtt'', dirname = ''/srv/dist''\<rparr>))) =
     [Call_pinoFactory
        \<lparr>transport_targets =
           Some [\<lparr>target = ''pino/file'', target_level = ''info'',
                  target_opts = \<lparr>destination = ''/srv/dist/../logs/app.log'',
                                 mkdir = True, sync = False\<rparr>\<rparr>],
         opt_level = ''info'', timestamp = Some IsoTimestamp, messageKey = Some ''message'',
         base = [(''env'', JStr '' Production ''), (''version'', JStr ''9.8.7''),
                 (''service'', JStr ''svcDev'')]\<rparr>
        None] \<and>
   calls (pino (snd (getInstance_index_ts (\<lambda>a b. a @ ''/'' @ b)
            \<lparr>NODE_ENV = Some '' Production '', npm_package_version = Some ''9.8.7'',
             LOG_DIR = None\<rparr>
            None
            \<lparr>loggers = [], pino = \<lparr>handles = [], calls = []\<rparr>, Logger_instance = None,
             default_service_name = ''ads-mqtt'', dirname = ''/srv/dist''\<rparr>))) =
     [Call_pinoFactory
        \<lparr>transport_targets =
           Some [\<lparr>target = ''pino/file'', target_level = ''info'',
                  target_opts = \<lparr>destination = ''/srv/dist/../logs/app.log'',
                                 mkdir = True, sync = False\<rparr>\<rparr>],
         opt_level = ''info'', timestamp = Some IsoTimestamp, messageKey = Some ''message'',
         base = [(''env'', JStr '' Production ''), (''version'', JStr ''9.8.7''),
                 (''service'', JStr ''ads-mqtt'')]\<rparr>
        None]"
proof -
  have n: "toLowerCase (trim '' Production '') = ''production''" by code_simp
  have a: "read_instances [] ''svcDev'' = None" "read_instances [] ''@juntu/logger'' = None"
    by (simp_all add: read_instances_def Object_prototype_properties_def)
  have b: "read_instances [(''svcDev'', 0)] ''svcDev'' = Some (A_Logger 0)"
    by (simp add: read_instances_def)
  show ?thesis
    using root_construction_selects_configuration
      [where penv = "\<lparr>NODE_ENV = None, npm_package_version = None, LOG_DIR = None\<rparr>"
         and s = "''svcDev''" and path_join = "\<lambda>a b. a @ ''/'' @ b"
         and dflt = "''ads-mqtt''" and dest = "''/srv/logs/app.log''"
         and w = "\<lparr>loggers = [], pino = \<lparr>handles = [], calls = []\<rparr>\<rparr>"
         and k = "\<lparr>loggers = [], pino = \<lparr>handles = [], calls = []\<rparr>, instances = [],
                   logFile = ''/srv/logs/app.log''\<rparr>"
         and m = "\<lparr>loggers = [], pino = \<lparr>handles = [], calls = []\<rparr>, Logger_instance = None,
             default_service_name = ''ads-mqtt'', dirname = ''/srv/dist''\<rparr>"]
      root_construction_selects_configuration
      [where penv = "\<lparr>NODE_ENV = Some '' Production '', npm_package_version = Some ''9.8.7'',
                      LOG_DIR = None\<rparr>"
         and s = "''svcDev''" and path_join = "\<lambda>a b. a @ ''/'' @ b"
         and dflt = "''ads-mqtt''" and dest = "''/srv/logs/app.log''"
         and w = "\<lparr>loggers = [], pino = \<lparr>handles = [], calls = []\<rparr>\<rparr>"
         and k = "\<lparr>loggers = [\<lparr>logger = 0, children = []\<rparr>],
       pino = \<lparr>handles = [''debug''], calls = []\<rparr>, instances = [(''svcDev'', 0)],
       logFile = ''/srv/logs/app.log''\<rparr>"
         and m = "\<lparr>loggers = [], pino = \<lparr>handles = [], calls = []\<rparr>, Logger_instance = None,
             default_service_name = ''ads-mqtt'', dirname = ''/srv/dist''\<rparr>"]
    by (simp add: n a b unset_normalized Let_def)
qed

section \<open>The registry of the keyed module\<close>

lemma getInstance_cached:
  "read_instances (instances k) (service_key s) = Some v \<Longrightarrow> getInstance penv s k = (v, k)"
  by (simp add: getInstance_def service_key_def split: option.splits)

lemma getInstance_fresh:
  "read_instances (instances k) (service_key s) = None \<Longrightarrow>
   getInstance penv s k =
     (A_Logger (length (loggers k)),
      (snd (Logger_constructor DEFAULT_SERVICE_NAME (logFile k) penv (P_string (service_key s)) k))
        \<lparr>instances := AList.update (service_key s) (length (loggers k)) (instances k)\<rparr>)"
  by (simp add: getInstance_def service_key_def Logger_constructor_string split: option.splits)

lemma read_instances_None:
  "read_instances inst n = None \<longleftrightarrow> map_of inst n = None \<and> n \<notin> set Object_prototype_properties"
  by (simp add: read_instances_def split: option.splits)

lemma read_instances_update:
  "read_instances (AList.update n r inst) n = Some (A_Logger r)"
  by (simp add: read_instances_def update_conv')

lemma getInstance_repeat:
  "getInstance penv' s (snd (getInstance penv s k)) = getInstance penv s k"
proof (cases "read_instances (instances k) (service_key s)")
  case None
  then show ?thesis
    by (simp add: getInstance_fresh getInstance_cached read_instances_update)
next
  case (Some v)
  then show ?thesis by (simp add: getInstance_cached)
qed

lemma update_absent: "map_of al k = None \<Longrightarrow> AList.update k v al = al @ [(k, v)]"
  by (induction al) (auto split: if_splits)

lemma registry_ok_getInstance:
  assumes "registry_ok k"
  shows "registry_ok (snd (getInstance penv s k))"
proof (cases "read_instances (instances k) (service_key s)")
  case None
  then have m: "map_of (instances k) (service_key s) = None"
    by (simp add: read_instances_None)
  then have u: "AList.update (service_key s) (length (loggers k)) (instances k) =
             instances k @ [(service_key s, length (loggers k))]"
    by (rule update_absent)
  from m have nk: "service_key s \<notin> fst ` set (instances k)"
    by (simp add: map_of_eq_None_iff)
  from assms have nv: "length (loggers k) \<notin> snd ` set (instances k)"
    by (auto simp: registry_ok_def)
  show ?thesis
    using assms nk nv
    by (auto simp: registry_ok_def getInstance_fresh[OF None] u Logger_constructor_string
        less_Suc_eq)
next
  case (Some v)
  with assms show ?thesis by (simp add: getInstance_cached)
qed

lemma instances_kept:
  assumes "map_of (instances k) n = Some r"
  shows "map_of (instances (snd (getInstance penv s k))) n = Some r"
proof (cases "read_instances (instances k) (service_key s)")
  case None
  then have "map_of (instances k) (service_key s) = None"
    by (simp add: read_instances_None)
  with assms have "n \<noteq> service_key s" by auto
  with assms show ?thesis
    by (simp add: getInstance_fresh[OF None] update_conv' Logger_constructor_string)
next
  case (Some v)
  with assms show ?thesis by (simp add: getInstance_cached)
qed

lemma registry_inj:
  assumes "registry_ok k" "map_of (instances k) n1 = Some r" "map_of (instances k) n2 = Some r"
  shows "n1 = n2"
proof -
  from assms(2,3) have a: "(n1, r) \<in> set (instances k)" "(n2, r) \<in> set (instances k)"
    by (auto dest: map_of_SomeD)
  from assms(1) have "distinct (map snd (instances k))" by (simp add: registry_ok_def)
  then have i: "inj_on snd (set (instances k))" by (simp add: distinct_map)
  show ?thesis using inj_onD[OF i, of "(n1, r)" "(n2, r)"] a by simp
qed

lemma getInstance_own:
  assumes "service_key s \<notin> set Object_prototype_properties"
  shows "\<exists>r. fst (getInstance penv s k) = A_Logger r \<and>
             map_of (instances (snd (getInstance penv s k))) (service_key s) = Some r"
proof (cases "read_instances (instances k) (service_key s)")
  case None
  then show ?thesis
    by (simp add: getInstance_fresh update_conv' Logger_constructor_string)
next
  case (Some v)
  with assms show ?thesis
    by (auto simp: getInstance_cached read_instances_def split: option.splits)
qed

text \<open>
  In the keyed module, and for service names that are not property names of
  \<^verbatim>\<open>Object.prototype\<close>: a repeated \<open>getInstance\<close> returns the same Logger and leaves the
  state alone, and \<open>getInstance\<close> for a different key returns a different Logger, after
  which the first key still has its Logger.
\<close>

theorem keyed_one_root_per_service_name:
  assumes ok: "registry_ok k"
    and p1: "service_key s1 \<notin> set Object_prototype_properties"
    and p2: "service_key s2 \<notin> set Object_prototype_properties"
    and ne: "service_key s1 \<noteq> service_key s2"
  shows "getInstance penv' s1 (snd (getInstance penv s1 k)) = getInstance penv s1 k \<and>
         (\<exists>r. fst (getInstance penv s1 k) = A_Logger r) \<and>
         fst (getInstance penv' s2 (snd (getInstance penv s1 k))) \<noteq> fst (getInstance penv s1 k) \<and>
         fst (getInstance penv'' s1 (snd (getInstance penv' s2 (snd (getInstance penv s1 k))))) =
           fst (getInstance penv s1 k)"
proof -
  let ?k1 = "snd (getInstance penv s1 k)"
  let ?k2 = "snd (getInstance penv' s2 ?k1)"
  obtain r1 where r1: "fst (getInstance penv s1 k) = A_Logger r1"
    "map_of (instances ?k1) (service_key s1) = Some r1"
    using getInstance_own[OF p1] by blast
  obtain r2 where r2: "fst (getInstance penv' s2 ?k1) = A_Logger r2"
    "map_of (instances ?k2) (service_key s2) = Some r2"
    using getInstance_own[OF p2] by blast
  have k2: "map_of (instances ?k2) (service_key s1) = Some r1"
    using r1(2) by (rule instances_kept)
  have ok2: "registry_ok ?k2"
    by (intro registry_ok_getInstance ok)
  have "r1 \<noteq> r2"
    using registry_inj[OF ok2 k2] r2(2) ne by auto
  moreover have "fst (getInstance penv'' s1 ?k2) = A_Logger r1"
    using k2 by (simp add: getInstance_cached read_instances_def)
  ultimately show ?thesis
    using r1 r2 by (simp add: getInstance_repeat)
qed

text \<open>
  Claim C1 (one root per service name, distinct names give distinct roots). In
  \<^verbatim>\<open>src/index.ts\<close> \<open>getInstance\<close> keeps a single root: after \<open>getInstance('foo')\<close>,
  \<open>getInstance('bar')\<close> returns the root of \<open>foo\<close>. In the keyed module the name
  \<open>constructor\<close> finds the inherited property of the registry object: no Logger is built,
  and what is returned is not a Logger.
\<close>

theorem index_ts_single_root_and_inherited_keys:
  "fst (getInstance_index_ts path_join penv' (Some ''bar'')
          (snd (getInstance_index_ts path_join penv (Some ''foo'') (load_index_ts pkg dir)))) =
     fst (getInstance_index_ts path_join penv (Some ''foo'') (load_index_ts pkg dir)) \<and>
   getInstance penv (Some ''constructor'') (load_keyed_module path_join cwd penv0) =
     (Inherited ''constructor'', load_keyed_module path_join cwd penv0)"
  by (simp add: getInstance_index_ts_def load_index_ts_def Logger_constructor_string
      getInstance_def load_keyed_module_def read_instances_def Object_prototype_properties_def)

text \<open>
  In the keyed module an absent and an empty service name are the default key, and the
  root built for it is configured with the default service name.
\<close>

theorem keyed_default_service_name:
  "getInstance penv None k = getInstance penv (Some DEFAULT_SERVICE_NAME) k \<and>
   getInstance penv (Some []) k = getInstance penv (Some DEFAULT_SERVICE_NAME) k \<and>
   (read_instances (instances k) DEFAULT_SERVICE_NAME = None \<longrightarrow>
      calls (pino (snd (getInstance penv None k))) =
        calls (pino k) @
          [if toLowerCase (trim (case NODE_ENV penv of None \<Rightarrow> [] | Some e \<Rightarrow> e)) = ''production''
           then Call_pinoFactory (prodConfig (logFile k) penv DEFAULT_SERVICE_NAME) None
           else Call_pinoFactory (devConfig DEFAULT_SERVICE_NAME) (Some prettyStream)] \<and>
      map_of (base (prodConfig (logFile k) penv DEFAULT_SERVICE_NAME)) ''service'' =
        Some (JStr DEFAULT_SERVICE_NAME) \<and>
      map_of (base (devConfig DEFAULT_SERVICE_NAME)) ''service'' =
        Some (JStr DEFAULT_SERVICE_NAME))"
  by (simp add: getInstance_def Logger_constructor_string pinoFactory_def devConfig_def
      prodConfig_def Let_def)

text \<open>
  Claim C2 (an absent or empty service name gives the root of the default service name).
  In \<^verbatim>\<open>src/index.ts\<close> a first call \<open>getInstance('')\<close> builds the root with the empty
  string as its service name, not with the default \<open>ads-mqtt\<close>.
\<close>

theorem index_ts_empty_service_name:
  "calls (pino (snd (getInstance_index_ts path_join
            \<lparr>NODE_ENV = None, npm_package_version = None, LOG_DIR = None\<rparr>
            (Some []) (load_index_ts None dir)))) =
     [Call_pinoFactory
        \<lparr>transport_targets = None, opt_level = ''debug'', timestamp = None,
         messageKey = None, base = [(''service'', JStr [])]\<rparr>
        (Some prettyStream)] \<and>
   default_service_name (load_index_ts None dir) = ''ads-mqtt''"
  by (simp add: getInstance_index_ts_def load_index_ts_def Logger_constructor_string
      unset_normalized pinoFactory_def devConfig_def)

section \<open>The production configuration\<close>

text \<open>
  In the keyed module, with \<^verbatim>\<open>NODE_ENV=production\<close> and package version \<open>9.8.7\<close>, the root
  of \<open>svcProd\<close> is built with level \<open>info\<close>, one file target whose destination is
  \<open>app.log\<close> joined to the directory of \<^verbatim>\<open>LOG_DIR\<close> (or to \<open>logs\<close> joined to the working
  directory when \<^verbatim>\<open>LOG_DIR\<close> is unset), message key \<open>message\<close> and the three base fields.
\<close>

theorem keyed_production_configuration:
  assumes "NODE_ENV penv = Some ''production''" and "npm_package_version penv = Some ''9.8.7''"
  shows "calls (pino (snd (getInstance penv (Some ''svcProd'')
                             (load_keyed_module path_join cwd penv)))) =
     [Call_pinoFactory
        \<lparr>transport_targets =
           Some [\<lparr>target = ''pino/file'', target_level = ''info'',
                  target_opts =
                    \<lparr>destination =
                       path_join (case LOG_DIR penv of None \<Rightarrow> path_join cwd ''logs''
                                  | Some d \<Rightarrow> d) ''app.log'',
                     mkdir = True, sync = False\<rparr>\<rparr>],
         opt_level = ''info'', timestamp = Some IsoTimestamp, messageKey = Some ''message'',
         base = [(''env'', JStr ''production''), (''version'', JStr ''9.8.7''),
                 (''service'', JStr ''svcProd'')]\<rparr>
        None]"
  using assms
  by (simp add: getInstance_def load_keyed_module_def Logger_constructor_string
      read_instances_def Object_prototype_properties_def Let_def
      production_normalized pinoFactory_def prodConfig_def env_value_def)

text \<open>
  Claim C6 (production configuration, destination under the directory the environment
  configures). In \<^verbatim>\<open>src/index.ts\<close>, with \<^verbatim>\<open>LOG_DIR=/my/logs\<close>, the destination is
  \<^verbatim>\<open>../logs/app.log\<close> joined to the module's own directory: \<^verbatim>\<open>LOG_DIR\<close> is not read.
  Level, message key and base fields are as claimed.
\<close>

theorem index_ts_ignores_LOG_DIR:
  "calls (pino (snd (getInstance_index_ts path_join
            \<lparr>NODE_ENV = Some ''production'', npm_package_version = Some ''9.8.7'',
             LOG_DIR = Some ''/my/logs''\<rparr>
            (Some ''svcProd'') (load_index_ts pkg dir)))) =
     [Call_pinoFactory
        \<lparr>transport_targets =
           Some [\<lparr>target = ''pino/file'', target_level = ''info'',
                  target_opts = \<lparr>destination = path_join dir ''../logs/app.log'',
                                 mkdir = True, sync = False\<rparr>\<rparr>],
         opt_level = ''info'', timestamp = Some IsoTimestamp, messageKey = Some ''message'',
         base = [(''env'', JStr ''production''), (''version'', JStr ''9.8.7''),
                 (''service'', JStr ''svcProd'')]\<rparr>
        None]"
  by (simp add: getInstance_index_ts_def load_index_ts_def Logger_constructor_string
      production_normalized pinoFactory_def prodConfig_def env_value_def)

section \<open>Well-formed stores\<close>

lemma orderedD:
  assumes "ordered ls" and "n < length ls" and "c \<in> set (children (ls ! n))"
  shows "n < c \<and> c < length ls"
proof -
  have "n \<in> set [0..<length ls]" using assms(2) by simp
  with assms(1,3) show ?thesis unfolding ordered_def by blast
qed

lemma orderedI:
  assumes "\<And>n c. n < length ls \<Longrightarrow> c \<in> set (children (ls ! n)) \<Longrightarrow> n < c \<and> c < length ls"
  shows "ordered ls"
  unfolding ordered_def
proof (intro ballI)
  fix n c assume "n \<in> set [0..<length ls]" and c: "c \<in> set (children (ls ! n))"
  then have "n < length ls" by simp
  then show "n < c \<and> c < length ls" using c by (rule assms)
qed

lemma one_parentD:
  assumes "one_parent ls" and "n < length ls" and "m < length ls"
    and "c \<in> set (children (ls ! n))" and "c \<in> set (children (ls ! m))"
  shows "m = n"
proof -
  have "n \<in> set [0..<length ls]" "m \<in> set [0..<length ls]" using assms(2,3) by simp_all
  with assms(1,4,5) show ?thesis unfolding one_parent_def by blast
qed

lemma one_parent_distinct:
  assumes "one_parent ls" and "n < length ls"
  shows "distinct (children (ls ! n))"
proof -
  have "n \<in> set [0..<length ls]" using assms(2) by simp
  with assms(1) show ?thesis unfolding one_parent_def by blast
qed

lemma one_parentI:
  assumes "\<And>n. n < length ls \<Longrightarrow> distinct (children (ls ! n))"
    and "\<And>n m c. n < length ls \<Longrightarrow> m < length ls \<Longrightarrow> c \<in> set (children (ls ! n)) \<Longrightarrow>
           c \<in> set (children (ls ! m)) \<Longrightarrow> m = n"
  shows "one_parent ls"
  unfolding one_parent_def
proof (intro ballI conjI impI)
  fix n assume "n \<in> set [0..<length ls]"
  then have n: "n < length ls" by simp
  then show "distinct (children (ls ! n))" by (rule assms(1))
  fix m c assume "m \<in> set [0..<length ls]"
  then have m: "m < length ls" by simp
  assume "c \<in> set (children (ls ! n))" "c \<in> set (children (ls ! m))"
  with n m show "m = n" by (rule assms(2))
qed

lemma handles_okD:
  assumes "handles_ok w" and "n < length (loggers w)"
  shows "logger (loggers w ! n) < length (handles (pino w))"
proof -
  have "n \<in> set [0..<length (loggers w)]" using assms(2) by simp
  with assms(1) show ?thesis unfolding handles_ok_def by blast
qed

lemma handles_ok_inj:
  assumes "handles_ok w" and "n < length (loggers w)" and "m < length (loggers w)"
    and "logger (loggers w ! n) = logger (loggers w ! m)"
  shows "n = m"
proof -
  from assms(1) have "distinct (map logger (loggers w))" unfolding handles_ok_def by blast
  then have "\<forall>i<length (loggers w). \<forall>j<length (loggers w).
                i \<noteq> j \<longrightarrow> logger (loggers w ! i) \<noteq> logger (loggers w ! j)"
    by (simp add: distinct_conv_nth)
  with assms(2,3,4) show ?thesis by blast
qed

lemma pre_order_unfold:
  assumes "ordered ls" and "n < length ls"
  shows "pre_order ls n = n # concat (map (pre_order ls) (children (ls ! n)))"
proof -
  have "filter (\<lambda>c. n < c \<and> c < length ls) (children (ls ! n)) = children (ls ! n)"
    unfolding filter_id_conv using orderedD[OF assms] by blast
  then show ?thesis by (subst pre_order.simps) simp
qed

text \<open>Well-formedness is kept when a Logger without children is added to the store, when
  a Logger that is in no children list is appended to the children of an earlier one, and
  when only the backend changes.\<close>

lemma wf_heap_add:
  fixes w :: "'a heap_scheme" and w' :: "'b heap_scheme"
  assumes wf: "wf_heap w"
    and ls: "loggers w' = loggers w @ [\<lparr>logger = length (handles (pino w)), children = []\<rparr>]"
    and hs: "length (handles (pino w')) = Suc (length (handles (pino w)))"
  shows "wf_heap w'"
proof -
  let ?ls = "loggers w" and ?N = "length (loggers w)" and ?H = "length (handles (pino w))"
  have o: "ordered ?ls" and u: "one_parent ?ls" and h: "handles_ok w"
    using wf by (simp_all add: wf_heap_def)
  have kids: "children (loggers w' ! n) = (if n < ?N then children (?ls ! n) else [])"
    if "n < length (loggers w')" for n
    using that by (simp add: ls nth_append)
  have o': "ordered (loggers w')"
  proof (rule orderedI)
    fix n c assume n: "n < length (loggers w')" and c: "c \<in> set (children (loggers w' ! n))"
    with kids[OF n] have "n < ?N" "c \<in> set (children (?ls ! n))"
      by (auto split: if_splits)
    from orderedD[OF o this] show "n < c \<and> c < length (loggers w')" by (simp add: ls)
  qed
  have u': "one_parent (loggers w')"
  proof (rule one_parentI)
    fix n assume n: "n < length (loggers w')"
    show "distinct (children (loggers w' ! n))"
      using kids[OF n] one_parent_distinct[OF u, of n] by simp
  next
    fix n m c
    assume n: "n < length (loggers w')" and m: "m < length (loggers w')"
      and "c \<in> set (children (loggers w' ! n))" "c \<in> set (children (loggers w' ! m))"
    with kids[OF n] kids[OF m]
    have "n < ?N" "m < ?N" "c \<in> set (children (?ls ! n))" "c \<in> set (children (?ls ! m))"
      by (auto split: if_splits)
    then show "m = n" by (intro one_parentD[OF u])
  qed
  have lt: "\<And>x. x \<in> set (map logger ?ls) \<Longrightarrow> x < ?H"
    using handles_okD[OF h] by (auto simp: in_set_conv_nth)
  have h': "handles_ok w'"
    unfolding handles_ok_def
  proof (intro conjI ballI)
    fix n assume "n \<in> set [0..<length (loggers w')]"
    then have "n < ?N \<or> n = ?N" by (auto simp: ls)
    then show "logger (loggers w' ! n) < length (handles (pino w'))"
      using handles_okD[OF h, of n] by (auto simp: ls hs nth_append)
  next
    from h have "distinct (map logger ?ls)" by (simp add: handles_ok_def)
    moreover have "?H \<notin> set (map logger ?ls)" using lt by blast
    ultimately show "distinct (map logger (loggers w'))" by (simp add: ls)
  qed
  from o' u' h' show ?thesis by (simp add: wf_heap_def)
qed

lemma wf_heap_push:
  fixes w :: "'a heap_scheme" and w' :: "'b heap_scheme"
  assumes wf: "wf_heap w"
    and tc: "this < c" and c: "c < length (loggers w)"
    and fresh: "\<And>n. n < length (loggers w) \<Longrightarrow> c \<notin> set (children (loggers w ! n))"
    and ls: "loggers w' = (loggers w)[this := (loggers w ! this)
               \<lparr>children := children (loggers w ! this) @ [c]\<rparr>]"
    and hs: "length (handles (pino w')) = length (handles (pino w))"
  shows "wf_heap w'"
proof -
  let ?ls = "loggers w" and ?N = "length (loggers w)"
  have o: "ordered ?ls" and u: "one_parent ?ls" and h: "handles_ok w"
    using wf by (simp_all add: wf_heap_def)
  have len: "length (loggers w') = ?N" by (simp add: ls)
  have kids: "children (loggers w' ! n) =
                (if n = this then children (?ls ! n) @ [c] else children (?ls ! n))"
    if "n < ?N" for n
    using that by (simp add: ls nth_list_update)
  have lg: "map logger (loggers w') = map logger ?ls"
    using tc c by (simp add: ls map_update list_update_same_conv)
  have o': "ordered (loggers w')"
  proof (rule orderedI)
    fix n k assume n: "n < length (loggers w')" and k: "k \<in> set (children (loggers w' ! n))"
    from n have n': "n < ?N" by (simp add: len)
    from k kids[OF n'] have "k \<in> set (children (?ls ! n)) \<or> (n = this \<and> k = c)"
      by (auto split: if_splits)
    then show "n < k \<and> k < length (loggers w')"
      using orderedD[OF o n', of k] tc c by (auto simp: len)
  qed
  have u': "one_parent (loggers w')"
  proof (rule one_parentI)
    fix n assume "n < length (loggers w')"
    then have n': "n < ?N" by (simp add: len)
    show "distinct (children (loggers w' ! n))"
      using kids[OF n'] one_parent_distinct[OF u n'] fresh[OF n'] by auto
  next
    fix n m k
    assume "n < length (loggers w')" "m < length (loggers w')"
      and kn: "k \<in> set (children (loggers w' ! n))" and km: "k \<in> set (children (loggers w' ! m))"
    then have n': "n < ?N" and m': "m < ?N" by (simp_all add: len)
    show "m = n"
    proof (cases "k = c")
      case True
      with kn km kids[OF n'] kids[OF m'] fresh[OF n'] fresh[OF m'] show ?thesis
        by (auto split: if_splits)
    next
      case False
      with kn km kids[OF n'] kids[OF m']
      have "k \<in> set (children (?ls ! n))" "k \<in> set (children (?ls ! m))"
        by (auto split: if_splits)
      with n' m' show ?thesis by (intro one_parentD[OF u])
    qed
  qed
  have h': "handles_ok w'"
    unfolding handles_ok_def
  proof (intro conjI ballI)
    fix n assume "n \<in> set [0..<length (loggers w')]"
    then have n': "n < ?N" by (simp add: len)
    have "logger (loggers w' ! n) = logger (?ls ! n)"
      using n' tc c by (cases "n = this") (simp_all add: ls)
    then show "logger (loggers w' ! n) < length (handles (pino w'))"
      using handles_okD[OF h n'] by (simp add: hs)
  next
    from h show "distinct (map logger (loggers w'))" by (simp add: lg handles_ok_def)
  qed
  from o' u' h' show ?thesis by (simp add: wf_heap_def)
qed

lemma wf_heap_same:
  fixes w :: "'a heap_scheme" and w' :: "'b heap_scheme"
  assumes "wf_heap w" and "loggers w' = loggers w"
    and "length (handles (pino w')) = length (handles (pino w))"
  shows "wf_heap w'"
  using assms(1) unfolding wf_heap_def handles_ok_def assms(2) assms(3) .

text \<open>Every operation keeps the store well-formed, and both modules start with a
  well-formed store.\<close>

lemma set_levels_append:
  "set_levels ls l (xs @ ys) p = set_levels ls l ys (set_levels ls l xs p)"
  by (simp add: set_levels_def)

lemma calls_set_levels:
  "calls (set_levels ls l ns p) = calls p @ map (\<lambda>n. Set_level (logger (ls ! n)) l) ns"
  by (induction ns arbitrary: p) (simp_all add: set_levels_def pino_set_level_def)

lemma length_handles_set_levels: "length (handles (set_levels ls l ns p)) = length (handles p)"
  by (induction ns arbitrary: p) (simp_all add: set_levels_def pino_set_level_def)

lemma handles_set_levels:
  "h < length (handles p) \<Longrightarrow>
   handles (set_levels ls l ns p) ! h =
     (if h \<in> (\<lambda>n. logger (ls ! n)) ` set ns then l else handles p ! h)"
proof (induction ns arbitrary: p)
  case Nil
  then show ?case by (simp add: set_levels_def)
next
  case (Cons n ns)
  have "set_levels ls l (n # ns) p = set_levels ls l ns (pino_set_level (logger (ls ! n)) l p)"
    by (simp add: set_levels_def)
  moreover have "h < length (handles (pino_set_level (logger (ls ! n)) l p))"
    using Cons.prems by (simp add: pino_set_level_def)
  ultimately show ?case
    using Cons.IH[of "pino_set_level (logger (ls ! n)) l p"] Cons.prems
    by (auto simp: pino_set_level_def nth_list_update)
qed

lemma forEach_setLogLevel:
  fixes w :: "'a heap_scheme"
  assumes "\<And>c (w :: 'a heap_scheme). c \<in> set cs \<Longrightarrow> loggers w = ls \<Longrightarrow>
             setLogLevel level c w =
               Some (w\<lparr>pino := set_levels ls (LogLevel_value level) (pre_order ls c) (pino w)\<rparr>)"
    and "loggers w = ls"
  shows "forEach (setLogLevel level) cs w =
           Some (w\<lparr>pino := set_levels ls (LogLevel_value level)
                              (concat (map (pre_order ls) cs)) (pino w)\<rparr>)"
  using assms
proof (induction cs arbitrary: w)
  case Nil
  then show ?case by (simp add: set_levels_def)
next
  case (Cons c cs)
  let ?w1 = "w\<lparr>pino := set_levels ls (LogLevel_value level) (pre_order ls c) (pino w)\<rparr>"
  have 1: "setLogLevel level c w = Some ?w1"
    by (rule Cons.prems(1)) (simp_all add: Cons.prems(2))
  have 2: "forEach (setLogLevel level) cs ?w1 =
        Some (?w1\<lparr>pino := set_levels ls (LogLevel_value level) (concat (map (pre_order ls) cs))
                 (pino ?w1)\<rparr>)"
  proof (rule Cons.IH)
    fix c' and w' :: "'a heap_scheme"
    assume "c' \<in> set cs" and "loggers w' = ls"
    then show "setLogLevel level c' w' =
        Some (w'\<lparr>pino := set_levels ls (LogLevel_value level) (pre_order ls c') (pino w')\<rparr>)"
      by (intro Cons.prems(1)) simp_all
  next
    show "loggers ?w1 = ls" using Cons.prems(2) by simp
  qed
  show ?case by (simp add: 1 2 set_levels_append)
qed

lemma setLogLevel_pre_order:
  fixes w :: "'a heap_scheme"
  assumes "ordered ls" and "this < length ls" and "loggers w = ls"
  shows "setLogLevel level this w =
           Some (w\<lparr>pino := set_levels ls (LogLevel_value level) (pre_order ls this) (pino w)\<rparr>)"
  using assms(2,3)
proof (induction "length ls - this" arbitrary: this w rule: less_induct)
  case less
  have kids: "\<And>c. c \<in> set (children (ls ! this)) \<Longrightarrow> this < c \<and> c < length ls"
    using assms(1) less.prems(1) by (rule orderedD)
  have step: "\<And>c (w' :: 'a heap_scheme). c \<in> set (children (ls ! this)) \<Longrightarrow> loggers w' = ls \<Longrightarrow>
      setLogLevel level c w' =
        Some (w'\<lparr>pino := set_levels ls (LogLevel_value level) (pre_order ls c) (pino w')\<rparr>)"
  proof -
    fix c and w' :: "'a heap_scheme"
    assume c: "c \<in> set (children (ls ! this))" and w': "loggers w' = ls"
    from kids[OF c] have "length ls - c < length ls - this" "c < length ls" by auto
    with w' show "setLogLevel level c w' =
        Some (w'\<lparr>pino := set_levels ls (LogLevel_value level) (pre_order ls c) (pino w')\<rparr>)"
      by (intro less.hyps)
  qed
  have "setLogLevel level this w =
      forEach (setLogLevel level) (children (ls ! this))
        (w\<lparr>pino := pino_set_level (logger (ls ! this)) (LogLevel_value level) (pino w)\<rparr>)"
    by (subst setLogLevel.simps) (simp add: less.prems)
  also have "\<dots> = Some (w\<lparr>pino := set_levels ls (LogLevel_value level)
                 (concat (map (pre_order ls) (children (ls ! this))))
                 (pino_set_level (logger (ls ! this)) (LogLevel_value level) (pino w))\<rparr>)"
    using forEach_setLogLevel[of "children (ls ! this)" ls level
        "w\<lparr>pino := pino_set_level (logger (ls ! this)) (LogLevel_value level) (pino w)\<rparr>"]
      step less.prems by simp
  also have "\<dots> = Some (w\<lparr>pino := set_levels ls (LogLevel_value level) (pre_order ls this) (pino w)\<rparr>)"
    by (simp add: pre_order_unfold[OF assms(1) less.prems(1)] set_levels_def)
  finally show ?case .
qed

lemma wf_heap_child:
  fixes w :: "'a heap_scheme"
  assumes wf: "wf_heap w" and lt: "this < length (loggers w)"
  shows "wf_heap (snd (child this b w))"
proof -
  let ?N = "length (loggers w)"
  let ?new = "\<lparr>logger = length (handles (pino w)), children = []\<rparr>"
  let ?w1 = "\<lparr>loggers = loggers w @ [?new],
              pino = (pino w)\<lparr>handles := handles (pino w) @
                                  [handles (pino w) ! logger (loggers w ! this)]\<rparr>\<rparr>"
  have o: "ordered (loggers w)" using wf by (simp add: wf_heap_def)
  have wf1: "wf_heap ?w1" using wf by (rule wf_heap_add) simp_all
  have fresh: "?N \<notin> set (children (loggers ?w1 ! n))" if "n < length (loggers ?w1)" for n
  proof (cases "n < ?N")
    case True
    then show ?thesis using orderedD[OF o True, of ?N] by (auto simp: nth_append)
  next
    case False
    with that have "n = ?N" by simp
    then show ?thesis by simp
  qed
  show ?thesis
  proof (rule wf_heap_push[OF wf1, of this ?N])
    show "this < ?N" by (rule lt)
    show "?N < length (loggers ?w1)" by simp
    show "\<And>n. n < length (loggers ?w1) \<Longrightarrow> ?N \<notin> set (children (loggers ?w1 ! n))"
      by (rule fresh)
    show "loggers (snd (child this b w)) =
            (loggers ?w1)[this := (loggers ?w1 ! this)
               \<lparr>children := children (loggers ?w1 ! this) @ [?N]\<rparr>]"
      by (simp add: child_unfold)
    show "length (handles (pino (snd (child this b w)))) = length (handles (pino ?w1))"
      by (simp add: child_unfold)
  qed
qed

lemma loggers_Logger_constructor:
  "loggers (snd (Logger_constructor dflt dest penv (P_string s) w)) =
     loggers w @ [\<lparr>logger = length (handles (pino w)), children = []\<rparr>] \<and>
   length (handles (pino (snd (Logger_constructor dflt dest penv (P_string s) w)))) =
     Suc (length (handles (pino w))) \<and>
   loggers (snd (Logger_constructor dflt dest penv P_undefined w)) =
     loggers w @ [\<lparr>logger = length (handles (pino w)), children = []\<rparr>] \<and>
   length (handles (pino (snd (Logger_constructor dflt dest penv P_undefined w)))) =
     Suc (length (handles (pino w)))"
  by (simp add: Logger_constructor_root[where s = s] pinoFactory_def Let_def)

lemma loggers_getInstance:
  "loggers (snd (getInstance penv s k)) = loggers k \<and>
     length (handles (pino (snd (getInstance penv s k)))) = length (handles (pino k)) \<or>
   loggers (snd (getInstance penv s k)) =
     loggers k @ [\<lparr>logger = length (handles (pino k)), children = []\<rparr>] \<and>
     length (handles (pino (snd (getInstance penv s k)))) = Suc (length (handles (pino k)))"
proof (cases "read_instances (instances k) (service_key s)")
  case None
  then show ?thesis
    using loggers_Logger_constructor[of DEFAULT_SERVICE_NAME "logFile k" penv "service_key s" k]
    by (simp add: getInstance_fresh)
next
  case (Some v)
  then show ?thesis by (simp add: getInstance_cached)
qed

lemma loggers_getInstance_index_ts:
  "loggers (snd (getInstance_index_ts pj penv s m)) = loggers m \<and>
     length (handles (pino (snd (getInstance_index_ts pj penv s m)))) = length (handles (pino m)) \<or>
   loggers (snd (getInstance_index_ts pj penv s m)) =
     loggers m @ [\<lparr>logger = length (handles (pino m)), children = []\<rparr>] \<and>
     length (handles (pino (snd (getInstance_index_ts pj penv s m)))) =
       Suc (length (handles (pino m)))"
proof (cases "Logger_instance m")
  case None
  show ?thesis
    using None loggers_Logger_constructor[of "default_service_name m"
        "pj (dirname m) ''../logs/app.log''" penv "case s of None \<Rightarrow> [] | Some x \<Rightarrow> x" m]
    by (cases s) (simp_all add: getInstance_index_ts_def case_prod_beta)
next
  case (Some r)
  then show ?thesis by (simp add: getInstance_index_ts_def)
qed

lemma wf_heap_getInstance:
  assumes "wf_heap k"
  shows "wf_heap (snd (getInstance penv s k))"
  using loggers_getInstance[of penv s k]
proof (elim disjE conjE)
  assume "loggers (snd (getInstance penv s k)) = loggers k"
    "length (handles (pino (snd (getInstance penv s k)))) = length (handles (pino k))"
  with assms show ?thesis by (rule wf_heap_same)
next
  assume "loggers (snd (getInstance penv s k)) =
     loggers k @ [\<lparr>logger = length (handles (pino k)), children = []\<rparr>]"
    "length (handles (pino (snd (getInstance penv s k)))) = Suc (length (handles (pino k)))"
  with assms show ?thesis by (rule wf_heap_add)
qed

lemma wf_heap_getInstance_index_ts:
  assumes "wf_heap m"
  shows "wf_heap (snd (getInstance_index_ts pj penv s m))"
  using loggers_getInstance_index_ts[of pj penv s m]
proof (elim disjE conjE)
  assume "loggers (snd (getInstance_index_ts pj penv s m)) = loggers m"
    "length (handles (pino (snd (getInstance_index_ts pj penv s m)))) = length (handles (pino m))"
  with assms show ?thesis by (rule wf_heap_same)
next
  assume "loggers (snd (getInstance_index_ts pj penv s m)) =
     loggers m @ [\<lparr>logger = length (handles (pino m)), children = []\<rparr>]"
    "length (handles (pino (snd (getInstance_index_ts pj penv s m)))) =
       Suc (length (handles (pino m)))"
  with assms show ?thesis by (rule wf_heap_add)
qed

lemma wf_heap_load:
  "wf_heap (load_keyed_module pj cwd penv)" "wf_heap (load_index_ts pkg dir)"
  by (simp_all add: wf_heap_def ordered_def one_parent_def handles_ok_def
      load_keyed_module_def load_index_ts_def Let_def)

lemma wf_heap_setLogLevel:
  fixes w :: "'a heap_scheme"
  assumes "wf_heap w" and "this < length (loggers w)" and "setLogLevel level this w = Some w'"
  shows "wf_heap w'"
proof -
  have "ordered (loggers w)" using assms(1) by (simp add: wf_heap_def)
  then have "setLogLevel level this w =
      Some (w\<lparr>pino := set_levels (loggers w) (LogLevel_value level)
                         (pre_order (loggers w) this) (pino w)\<rparr>)"
    using assms(2) by (rule setLogLevel_pre_order) simp
  with assms(3) have "w' = w\<lparr>pino := set_levels (loggers w) (LogLevel_value level)
                         (pre_order (loggers w) this) (pino w)\<rparr>" by simp
  then show ?thesis
    using assms(1) by (intro wf_heap_same[OF assms(1)]) (simp_all add: length_handles_set_levels)
qed

lemma wf_heap_forward:
  fixes w :: "'a heap_scheme"
  assumes "wf_heap w" and "forward pino_recording m this msg args w = Inr w'"
  shows "wf_heap w'"
proof -
  from assms(2) have "w' = w\<lparr>pino := (pino w)\<lparr>calls := calls (pino w) @
             [Call_method m (logger (loggers w ! this)) msg args]\<rparr>\<rparr>"
    by (simp add: forward_def pino_recording_def)
  then show ?thesis by (intro wf_heap_same[OF assms(1)]) simp_all
qed

section \<open>The level cascade\<close>

lemma child_relD: "(p, c) \<in> child_rel ls \<Longrightarrow> p < length ls \<and> c \<in> set (children (ls ! p))"
  by (simp add: child_rel_def)

lemma child_rel_less:
  assumes "ordered ls" and "(p, c) \<in> child_rel ls"
  shows "p < c \<and> c < length ls"
  using orderedD[OF assms(1)] child_relD[OF assms(2)] by blast

lemma descendants_ge:
  assumes "ordered ls" and "(n, d) \<in> (child_rel ls)\<^sup>*" and "n < length ls"
  shows "n \<le> d \<and> d < length ls"
  using assms(2,3)
proof (induction rule: rtrancl_induct)
  case base
  then show ?case by simp
next
  case (step y z)
  with child_rel_less[OF assms(1) step.hyps(2)] show ?case by simp
qed

lemma ancestors_less:
  assumes "ordered ls" and "(a, n) \<in> (child_rel ls)\<^sup>+"
  shows "a < n"
  using assms(2)
proof (induction rule: trancl_induct)
  case (base y)
  then show ?case using child_rel_less[OF assms(1)] by blast
next
  case (step y z)
  with child_rel_less[OF assms(1) step.hyps(2)] show ?case by simp
qed

lemma pre_order_reaches:
  assumes "ordered ls"
  shows "n < length ls \<Longrightarrow> d \<in> set (pre_order ls n) \<Longrightarrow> (n, d) \<in> (child_rel ls)\<^sup>*"
proof (induction "length ls - n" arbitrary: n rule: less_induct)
  case less
  from less.prems(2) pre_order_unfold[OF assms less.prems(1)]
  consider "d = n" | c where "c \<in> set (children (ls ! n))" "d \<in> set (pre_order ls c)"
    by auto
  then show ?case
  proof cases
    case 1
    then show ?thesis by simp
  next
    case 2
    from orderedD[OF assms less.prems(1) 2(1)]
    have "length ls - c < length ls - n" "c < length ls" by auto
    then have "(c, d) \<in> (child_rel ls)\<^sup>*" using 2(2) by (intro less.hyps)
    moreover have "(n, c) \<in> child_rel ls"
      using less.prems(1) 2(1) by (simp add: child_rel_def)
    ultimately show ?thesis by (rule converse_rtrancl_into_rtrancl[rotated])
  qed
qed

lemma reaches_pre_order:
  assumes "ordered ls" and "(n, d) \<in> (child_rel ls)\<^sup>*" and "n < length ls"
  shows "d \<in> set (pre_order ls n)"
  using assms(2,3)
proof (induction rule: converse_rtrancl_induct)
  case base
  then show ?case by (simp add: pre_order_unfold[OF assms(1)])
next
  case (step y z)
  from child_rel_less[OF assms(1) step.hyps(1)] have "z < length ls" by simp
  then have "d \<in> set (pre_order ls z)" by (rule step.IH)
  moreover have "z \<in> set (children (ls ! y))" using child_relD[OF step.hyps(1)] by simp
  ultimately show ?case
    using step.prems by (auto simp: pre_order_unfold[OF assms(1)])
qed

lemma set_pre_order:
  assumes "ordered ls" and "n < length ls"
  shows "set (pre_order ls n) = {d. (n, d) \<in> (child_rel ls)\<^sup>*}"
  using pre_order_reaches[OF assms] reaches_pre_order[OF assms(1) _ assms(2)] by blast

lemma ancestor_not_below:
  assumes "ordered ls" and "n < length ls" and "(a, n) \<in> (child_rel ls)\<^sup>+"
  shows "a \<notin> set (pre_order ls n)"
proof
  assume "a \<in> set (pre_order ls n)"
  then have "(n, a) \<in> (child_rel ls)\<^sup>*" by (rule pre_order_reaches[OF assms(1,2)])
  then have "n \<le> a" using descendants_ge[OF assms(1) _ assms(2)] by blast
  moreover have "a < n" using assms(1,3) by (rule ancestors_less)
  ultimately show False by simp
qed

lemma sibling_not_below:
  assumes "ordered ls" and "one_parent ls" and "n < length ls"
    and "(p, n) \<in> child_rel ls" and "(p, s) \<in> child_rel ls" and "s \<noteq> n"
  shows "s \<notin> set (pre_order ls n)"
proof
  assume "s \<in> set (pre_order ls n)"
  then have "(n, s) \<in> (child_rel ls)\<^sup>*" by (rule pre_order_reaches[OF assms(1,3)])
  with assms(6) have "(n, s) \<in> (child_rel ls)\<^sup>+" by (auto simp: rtrancl_eq_or_trancl)
  then obtain q where q: "(n, q) \<in> (child_rel ls)\<^sup>*" "(q, s) \<in> child_rel ls"
    by (auto dest: tranclD2)
  have "q = p"
    using one_parentD[OF assms(2)] child_relD[OF q(2)] child_relD[OF assms(5)] by blast
  with q(1) have "n \<le> p" using descendants_ge[OF assms(1) _ assms(3)] by blast
  moreover have "p < n" using child_rel_less[OF assms(1,4)] by simp
  ultimately show False by simp
qed

lemma threshold_set_levels:
  assumes "ordered (loggers w)" and "handles_ok w"
    and "this < length (loggers w)" and "k < length (loggers w)"
  shows "threshold (w\<lparr>pino := set_levels (loggers w) l (pre_order (loggers w) this) (pino w)\<rparr>) k =
           (if k \<in> set (pre_order (loggers w) this) then l else threshold w k)"
proof -
  let ?ls = "loggers w"
  have h: "logger (?ls ! k) < length (handles (pino w))"
    using assms(2,4) by (rule handles_okD)
  have sub: "\<And>n. n \<in> set (pre_order ?ls this) \<Longrightarrow> n < length ?ls"
    using pre_order_reaches[OF assms(1,3)] descendants_ge[OF assms(1) _ assms(3)] by blast
  have "logger (?ls ! k) \<in> (\<lambda>n. logger (?ls ! n)) ` set (pre_order ?ls this)
          \<longleftrightarrow> k \<in> set (pre_order ?ls this)"
  proof
    assume "logger (?ls ! k) \<in> (\<lambda>n. logger (?ls ! n)) ` set (pre_order ?ls this)"
    then obtain n where n: "n \<in> set (pre_order ?ls this)" "logger (?ls ! k) = logger (?ls ! n)"
      by blast
    from handles_ok_inj[OF assms(2) assms(4) sub[OF n(1)] n(2)] n(1)
    show "k \<in> set (pre_order ?ls this)" by simp
  qed blast
  then show ?thesis
    using handles_set_levels[OF h, of ?ls l "pre_order ?ls this"]
    by (simp add: threshold_def)
qed

text \<open>In the pre-order of a well-formed store no Logger occurs twice, and none before one
  of its ancestors.\<close>

lemma ancestors_first_append:
  assumes "ancestors_first r l1" and "ancestors_first r l2"
    and "\<And>d a. d \<in> set l1 \<Longrightarrow> a \<in> set l2 \<Longrightarrow> (a, d) \<notin> r"
  shows "ancestors_first r (l1 @ l2)"
  unfolding ancestors_first_def
proof (intro allI impI ballI)
  fix xs a ys d
  assume eq: "l1 @ l2 = xs @ a # ys" and d: "d \<in> set xs"
  from eq consider us where "l1 = xs @ us" "us @ l2 = a # ys"
    | us where "l1 @ us = xs" "l2 = us @ a # ys"
    by (auto simp: append_eq_append_conv2)
  then show "(a, d) \<notin> r"
  proof cases
    case 1
    show ?thesis
    proof (cases us)
      case Nil
      with 1 have "l2 = [] @ a # ys" "d \<in> set l1" using d by simp_all
      then show ?thesis using assms(3)[of d a] by simp
    next
      case (Cons u us')
      with 1 have "l1 = xs @ a # us'" by simp
      with assms(1) d show ?thesis unfolding ancestors_first_def by blast
    qed
  next
    case 2
    from 2(1) d have "d \<in> set l1 \<or> d \<in> set us" by auto
    then show ?thesis
    proof
      assume "d \<in> set l1"
      moreover have "a \<in> set l2" using 2(2) by simp
      ultimately show ?thesis by (rule assms(3))
    next
      assume "d \<in> set us"
      with assms(2) 2(2) show ?thesis unfolding ancestors_first_def by blast
    qed
  qed
qed

lemma ancestors_first_concat:
  assumes "\<And>l. l \<in> set ls \<Longrightarrow> ancestors_first r l"
    and "\<And>i j d a. i < j \<Longrightarrow> j < length ls \<Longrightarrow> d \<in> set (ls ! i) \<Longrightarrow> a \<in> set (ls ! j) \<Longrightarrow>
           (a, d) \<notin> r"
  shows "ancestors_first r (concat ls)"
  using assms
proof (induction ls)
  case Nil
  show ?case by (simp add: ancestors_first_def)
next
  case (Cons l ls)
  have 1: "ancestors_first r l" by (rule Cons.prems(1)) simp
  have 2: "ancestors_first r (concat ls)"
  proof (rule Cons.IH)
    show "\<And>k. k \<in> set ls \<Longrightarrow> ancestors_first r k" by (rule Cons.prems(1)) simp
    show "\<And>i j d a. i < j \<Longrightarrow> j < length ls \<Longrightarrow> d \<in> set (ls ! i) \<Longrightarrow> a \<in> set (ls ! j) \<Longrightarrow>
           (a, d) \<notin> r"
      using Cons.prems(2)[of "Suc _" "Suc _"] by simp
  qed
  have 3: "(a, d) \<notin> r" if "d \<in> set l" "a \<in> set (concat ls)" for d a
  proof -
    from that(2) obtain k where "k \<in> set ls" "a \<in> set k" by auto
    then obtain j where "j < length ls" "a \<in> set (ls ! j)"
      by (metis in_set_conv_nth)
    then show ?thesis using Cons.prems(2)[of 0 "Suc j" d a] that(1) by simp
  qed
  show ?case using ancestors_first_append[OF 1 2 3] by simp
qed

lemma ancestors_comparable:
  assumes o: "ordered ls" and u: "one_parent ls"
    and "(x, d) \<in> (child_rel ls)\<^sup>*" and "(y, d) \<in> (child_rel ls)\<^sup>*"
  shows "(x, y) \<in> (child_rel ls)\<^sup>* \<or> (y, x) \<in> (child_rel ls)\<^sup>*"
  using assms(3,4)
proof (induction arbitrary: y rule: rtrancl_induct)
  case base
  then show ?case by simp
next
  case (step z d)
  show ?case
  proof (cases "y = d")
    case True
    with step.hyps show ?thesis by auto
  next
    case False
    with step.prems obtain q where q: "(y, q) \<in> (child_rel ls)\<^sup>*" "(q, d) \<in> child_rel ls"
      by (auto elim: rtranclE)
    have "q = z"
      using one_parentD[OF u] child_relD[OF q(2)] child_relD[OF step.hyps(2)] by blast
    with q(1) show ?thesis by (intro step.IH) simp
  qed
qed

lemma siblings_apart:
  assumes o: "ordered ls" and u: "one_parent ls" and n: "n < length ls"
    and c: "c \<in> set (children (ls ! n))" and c': "c' \<in> set (children (ls ! n))" and ne: "c \<noteq> c'"
  shows "(c, c') \<notin> (child_rel ls)\<^sup>*"
proof
  assume "(c, c') \<in> (child_rel ls)\<^sup>*"
  with ne obtain q where q: "(c, q) \<in> (child_rel ls)\<^sup>*" "(q, c') \<in> child_rel ls"
    by (auto elim: rtranclE)
  have "q = n"
    using one_parentD[OF u n _ c'] child_relD[OF q(2)] by blast
  moreover have "c < length ls" "n < c" using orderedD[OF o n c] by simp_all
  ultimately have "c \<le> n" using descendants_ge[OF o q(1)] by simp
  with \<open>n < c\<close> show False by simp
qed

lemma pre_order_ancestors_first:
  assumes o: "ordered ls" and u: "one_parent ls"
  shows "n < length ls \<Longrightarrow> ancestors_first ((child_rel ls)\<^sup>+) (pre_order ls n)"
proof (induction "length ls - n" arbitrary: n rule: less_induct)
  case less
  let ?cs = "children (ls ! n)"
  let ?r = "(child_rel ls)\<^sup>+"
  have kid: "n < c \<and> c < length ls" if "c \<in> set ?cs" for c
    using orderedD[OF o less.prems that] .
  have blocks: "ancestors_first ?r (concat (map (pre_order ls) ?cs))"
  proof (rule ancestors_first_concat)
    fix l assume "l \<in> set (map (pre_order ls) ?cs)"
    then obtain c where c: "c \<in> set ?cs" "l = pre_order ls c" by auto
    from kid[OF c(1)] have "length ls - c < length ls - n" "c < length ls" by auto
    then show "ancestors_first ?r l" unfolding c(2) by (rule less.hyps)
  next
    fix i j d a
    assume ij: "i < j" "j < length (map (pre_order ls) ?cs)"
      and d: "d \<in> set (map (pre_order ls) ?cs ! i)" and a: "a \<in> set (map (pre_order ls) ?cs ! j)"
    let ?c = "?cs ! i" and ?c' = "?cs ! j"
    from ij have i: "i < length ?cs" and j: "j < length ?cs" by simp_all
    have ci: "?c \<in> set ?cs" and cj: "?c' \<in> set ?cs" using i j by simp_all
    have ne: "?c \<noteq> ?c'"
      using one_parent_distinct[OF u less.prems] i j ij(1) by (simp add: nth_eq_iff_index_eq)
    from d i have cd: "(?c, d) \<in> (child_rel ls)\<^sup>*"
      using pre_order_reaches[OF o, of ?c d] kid[OF ci] by simp
    from a j have ca: "(?c', a) \<in> (child_rel ls)\<^sup>*"
      using pre_order_reaches[OF o, of ?c' a] kid[OF cj] by simp
    show "(a, d) \<notin> ?r"
    proof
      assume "(a, d) \<in> ?r"
      with ca have "(?c', d) \<in> (child_rel ls)\<^sup>*" by (meson rtrancl_trans trancl_into_rtrancl)
      with cd have "(?c, ?c') \<in> (child_rel ls)\<^sup>* \<or> (?c', ?c) \<in> (child_rel ls)\<^sup>*"
        by (rule ancestors_comparable[OF o u])
      then show False
        using siblings_apart[OF o u less.prems ci cj ne]
          siblings_apart[OF o u less.prems cj ci ne[symmetric]] by blast
    qed
  qed
  have head: "(a, n) \<notin> ?r" if "a \<in> set (concat (map (pre_order ls) ?cs))" for a
  proof
    assume an: "(a, n) \<in> ?r"
    from that obtain c where c: "c \<in> set ?cs" "a \<in> set (pre_order ls c)" by auto
    have "(c, a) \<in> (child_rel ls)\<^sup>*"
      using pre_order_reaches[OF o, of c a] kid[OF c(1)] c(2) by simp
    then have "c \<le> a" using descendants_ge[OF o, of c a] kid[OF c(1)] by simp
    moreover have "a < n" using o an by (rule ancestors_less)
    ultimately show False using kid[OF c(1)] by simp
  qed
  have "ancestors_first ?r ([n] @ concat (map (pre_order ls) ?cs))"
  proof (rule ancestors_first_append)
    show "ancestors_first ?r [n]"
      by (auto simp: ancestors_first_def Cons_eq_append_conv)
    show "ancestors_first ?r (concat (map (pre_order ls) ?cs))" by (rule blocks)
    show "\<And>d a. d \<in> set [n] \<Longrightarrow> a \<in> set (concat (map (pre_order ls) ?cs)) \<Longrightarrow> (a, d) \<notin> ?r"
      using head by simp
  qed
  then show ?case by (simp add: pre_order_unfold[OF o less.prems])
qed

lemma pre_order_distinct:
  assumes o: "ordered ls" and u: "one_parent ls"
  shows "n < length ls \<Longrightarrow> distinct (pre_order ls n)"
proof (induction "length ls - n" arbitrary: n rule: less_induct)
  case less
  let ?cs = "children (ls ! n)"
  have kid: "n < c \<and> c < length ls" if "c \<in> set ?cs" for c
    using orderedD[OF o less.prems that] .
  have hd: "hd (pre_order ls c) = c" for c by (subst pre_order.simps) simp
  have inj: "inj_on (pre_order ls) (set ?cs)"
    by (rule inj_onI) (metis hd)
  have blocks: "distinct (concat (map (pre_order ls) ?cs))"
  proof (rule distinct_concat)
    show "distinct (map (pre_order ls) ?cs)"
      using one_parent_distinct[OF u less.prems] inj by (simp add: distinct_map)
  next
    fix l assume "l \<in> set (map (pre_order ls) ?cs)"
    then obtain c where c: "c \<in> set ?cs" "l = pre_order ls c" by auto
    from kid[OF c(1)] have "length ls - c < length ls - n" "c < length ls" by auto
    then show "distinct l" unfolding c(2) by (rule less.hyps)
  next
    fix l k
    assume "l \<in> set (map (pre_order ls) ?cs)" "k \<in> set (map (pre_order ls) ?cs)" "l \<noteq> k"
    then obtain c c' where c: "c \<in> set ?cs" "l = pre_order ls c"
      and c': "c' \<in> set ?cs" "k = pre_order ls c'" and ne: "c \<noteq> c'" by auto
    show "set l \<inter> set k = {}"
    proof (rule ccontr)
      assume "set l \<inter> set k \<noteq> {}"
      then obtain d where "d \<in> set (pre_order ls c)" "d \<in> set (pre_order ls c')"
        using c(2) c'(2) by auto
      then have "(c, d) \<in> (child_rel ls)\<^sup>*" "(c', d) \<in> (child_rel ls)\<^sup>*"
        using pre_order_reaches[OF o] kid[OF c(1)] kid[OF c'(1)] by simp_all
      then have "(c, c') \<in> (child_rel ls)\<^sup>* \<or> (c', c) \<in> (child_rel ls)\<^sup>*"
        by (rule ancestors_comparable[OF o u])
      then show False
        using siblings_apart[OF o u less.prems c(1) c'(1) ne]
          siblings_apart[OF o u less.prems c'(1) c(1) ne[symmetric]] by blast
    qed
  qed
  have "n \<notin> set (concat (map (pre_order ls) ?cs))"
  proof
    assume "n \<in> set (concat (map (pre_order ls) ?cs))"
    then obtain c where c: "c \<in> set ?cs" "n \<in> set (pre_order ls c)" by auto
    have "(c, n) \<in> (child_rel ls)\<^sup>*"
      using pre_order_reaches[OF o, of c n] kid[OF c(1)] c(2) by simp
    then have "c \<le> n" using descendants_ge[OF o, of c n] kid[OF c(1)] by simp
    then show False using kid[OF c(1)] by simp
  qed
  with blocks show ?case by (simp add: pre_order_unfold[OF o less.prems])
qed

text \<open>
  Claim C4. On a well-formed store \<open>setLogLevel\<close> returns; it is the assignment to the
  Logger's own handle followed by \<open>setLogLevel\<close> on each child in the order of the
  children list, and the level assignments it makes on the backend are, in this order,
  those of the Loggers in depth-first pre-order of the tree below the Logger: the Logger
  first, then the pre-orders of its children. Every Logger of that tree is assigned
  once, and none before one of its ancestors.
\<close>

theorem setLogLevel_cascades_in_pre_order:
  fixes w :: "'a heap_scheme"
  assumes "wf_heap w" and "this < length (loggers w)"
  shows "setLogLevel level this w =
           forEach (setLogLevel level) (children (loggers w ! this))
             (w\<lparr>pino := pino_set_level (logger (loggers w ! this)) (LogLevel_value level)
                          (pino w)\<rparr>) \<and>
         setLogLevel level this w =
           Some (w\<lparr>pino := fold (\<lambda>n. pino_set_level (logger (loggers w ! n)) (LogLevel_value level))
                              (pre_order (loggers w) this) (pino w)\<rparr>) \<and>
         calls (fold (\<lambda>n. pino_set_level (logger (loggers w ! n)) (LogLevel_value level))
                  (pre_order (loggers w) this) (pino w)) =
           calls (pino w) @
             map (\<lambda>n. Set_level (logger (loggers w ! n)) (LogLevel_value level))
               (pre_order (loggers w) this) \<and>
         (\<forall>n < length (loggers w).
            pre_order (loggers w) n =
              n # concat (map (pre_order (loggers w)) (children (loggers w ! n)))) \<and>
         distinct (pre_order (loggers w) this) \<and>
         (\<forall>xs a ys. pre_order (loggers w) this = xs @ a # ys \<longrightarrow>
            (\<forall>d \<in> set xs. (a, d) \<notin> (child_rel (loggers w))\<^sup>+))"
proof -
  have o: "ordered (loggers w)" and u: "one_parent (loggers w)"
    using assms(1) by (simp_all add: wf_heap_def)
  have 1: "setLogLevel level this w =
           forEach (setLogLevel level) (children (loggers w ! this))
             (w\<lparr>pino := pino_set_level (logger (loggers w ! this)) (LogLevel_value level)
                          (pino w)\<rparr>)"
    by (subst setLogLevel.simps) simp
  have 2: "setLogLevel level this w =
           Some (w\<lparr>pino := set_levels (loggers w) (LogLevel_value level)
                              (pre_order (loggers w) this) (pino w)\<rparr>)"
    using o assms(2) by (rule setLogLevel_pre_order) simp
  have 3: "calls (set_levels (loggers w) (LogLevel_value level) (pre_order (loggers w) this) (pino w)) =
           calls (pino w) @
             map (\<lambda>n. Set_level (logger (loggers w ! n)) (LogLevel_value level))
               (pre_order (loggers w) this)"
    by (rule calls_set_levels)
  have 4: "\<forall>n < length (loggers w).
            pre_order (loggers w) n =
              n # concat (map (pre_order (loggers w)) (children (loggers w ! n)))"
    using pre_order_unfold[OF o] by blast
  have 5: "distinct (pre_order (loggers w) this)"
    using o u assms(2) by (rule pre_order_distinct)
  have "ancestors_first ((child_rel (loggers w))\<^sup>+) (pre_order (loggers w) this)"
    using o u assms(2) by (rule pre_order_ancestors_first)
  then have 6: "\<forall>xs a ys. pre_order (loggers w) this = xs @ a # ys \<longrightarrow>
            (\<forall>d \<in> set xs. (a, d) \<notin> (child_rel (loggers w))\<^sup>+)"
    unfolding ancestors_first_def .
  from 1 2 3 4 5 6 show ?thesis unfolding set_levels_def by blast
qed

theorem setLogLevel_cascades_in_pre_order_witness:
  "wf_heap \<lparr>loggers = [\<lparr>logger = 0, children = [1, 2]\<rparr>, \<lparr>logger = 1, children = [3]\<rparr>,
                       \<lparr>logger = 2, children = []\<rparr>, \<lparr>logger = 3, children = []\<rparr>],
            pino = \<lparr>handles = [''debug'', ''debug'', ''debug'', ''debug''], calls = []\<rparr>\<rparr> \<and>
   setLogLevel WARN 0
     \<lparr>loggers = [\<lparr>logger = 0, children = [1, 2]\<rparr>, \<lparr>logger = 1, children = [3]\<rparr>,
                       \<lparr>logger = 2, children = []\<rparr>, \<lparr>logger = 3, children = []\<rparr>],
            pino = \<lparr>handles = [''debug'', ''debug'', ''debug'', ''debug''], calls = []\<rparr>\<rparr> =
   Some \<lparr>loggers = [\<lparr>logger = 0, children = [1, 2]\<rparr>, \<lparr>logger = 1, children = [3]\<rparr>,
                       \<lparr>logger = 2, children = []\<rparr>, \<lparr>logger = 3, children = []\<rparr>],
            pino = \<lparr>handles = [''warn'', ''warn'', ''warn'', ''warn''],
              calls = [Set_level 0 ''warn'', Set_level 1 ''warn'', Set_level 3 ''warn'',
                       Set_level 2 ''warn'']\<rparr>\<rparr> \<and>
   pre_order [\<lparr>logger = 0, children = [1, 2]\<rparr>, \<lparr>logger = 1, children = [3]\<rparr>,
              \<lparr>logger = 2, children = []\<rparr>, \<lparr>logger = 3, children = []\<rparr>] 0 = [0, 1] @ 3 # [2] \<and>
   (3, 1) \<notin> (child_rel [\<lparr>logger = 0, children = [1, 2]\<rparr>, \<lparr>logger = 1, children = [3]\<rparr>,
                        \<lparr>logger = 2, children = []\<rparr>, \<lparr>logger = 3, children = []\<rparr>])\<^sup>+"
proof -
  let ?ls = "[\<lparr>logger = 0, children = [1, 2]\<rparr>, \<lparr>logger = 1, children = [3]\<rparr>,
              \<lparr>logger = 2, children = []\<rparr>, \<lparr>logger = 3, children = []\<rparr>]"
  let ?w = "\<lparr>loggers = ?ls,
            pino = \<lparr>handles = [''debug'', ''debug'', ''debug'', ''debug''], calls = []\<rparr>\<rparr>"
  have wf: "wf_heap ?w" by code_simp
  have l: "0 < length (loggers ?w)" by simp
  note t = setLogLevel_cascades_in_pre_order[OF wf l, where level = WARN]
  have e: "setLogLevel WARN 0 ?w =
      Some (?w\<lparr>pino := fold (\<lambda>n. pino_set_level (logger (loggers ?w ! n)) (LogLevel_value WARN))
                         (pre_order (loggers ?w) 0) (pino ?w)\<rparr>)"
    by (rule t[THEN conjunct2, THEN conjunct1])
  have v: "?w\<lparr>pino := fold (\<lambda>n. pino_set_level (logger (loggers ?w ! n)) (LogLevel_value WARN))
                         (pre_order (loggers ?w) 0) (pino ?w)\<rparr> =
      \<lparr>loggers = ?ls,
       pino = \<lparr>handles = [''warn'', ''warn'', ''warn'', ''warn''],
              calls = [Set_level 0 ''warn'', Set_level 1 ''warn'', Set_level 3 ''warn'',
                       Set_level 2 ''warn'']\<rparr>\<rparr>"
    by (simp add: pre_order.simps pino_set_level_def)
  have p: "pre_order ?ls 0 = [0, 1] @ 3 # [2]" by (simp add: pre_order.simps)
  have a: "\<forall>xs a ys. pre_order (loggers ?w) 0 = xs @ a # ys \<longrightarrow>
            (\<forall>d \<in> set xs. (a, d) \<notin> (child_rel (loggers ?w))\<^sup>+)"
    by (rule t[THEN conjunct2, THEN conjunct2, THEN conjunct2, THEN conjunct2, THEN conjunct2])
  have p': "pre_order (loggers ?w) 0 = [0, 1] @ 3 # [2]" using p by simp
  have "(3, 1) \<notin> (child_rel (loggers ?w))\<^sup>+"
    by (rule a[rule_format, OF p']) simp
  then have n: "(3, 1) \<notin> (child_rel ?ls)\<^sup>+" by simp
  show ?thesis by (intro conjI) (rule wf, rule e[unfolded v], rule p, rule n)
qed

text \<open>
  Claim C5. On a well-formed store \<open>setLogLevel\<close> on a Logger returns, leaves the Logger
  objects as they are, sets the threshold of every Logger of the tree below it (the
  Logger and its descendants, which are the Loggers of its pre-order) to the level, and
  leaves the threshold of every other Logger of the store unchanged, among them its
  ancestors and its siblings.
\<close>

theorem setLogLevel_changes_exactly_the_subtree:
  fixes w :: "'a heap_scheme"
  assumes "wf_heap w" and "this < length (loggers w)"
  shows "\<exists>w'. setLogLevel level this w = Some w' \<and> loggers w' = loggers w \<and>
           (\<forall>n < length (loggers w).
              threshold w' n =
                (if n \<in> set (pre_order (loggers w) this) then LogLevel_value level
                 else threshold w n)) \<and>
           set (pre_order (loggers w) this) = {d. (this, d) \<in> (child_rel (loggers w))\<^sup>*} \<and>
           (\<forall>a. (a, this) \<in> (child_rel (loggers w))\<^sup>+ \<longrightarrow> threshold w' a = threshold w a) \<and>
           (\<forall>p s. (p, this) \<in> child_rel (loggers w) \<and> (p, s) \<in> child_rel (loggers w) \<and>
                  s \<noteq> this \<longrightarrow> threshold w' s = threshold w s)"
proof -
  let ?ls = "loggers w"
  let ?w' = "w\<lparr>pino := set_levels ?ls (LogLevel_value level) (pre_order ?ls this) (pino w)\<rparr>"
  have o: "ordered ?ls" and u: "one_parent ?ls" and h: "handles_ok w"
    using assms(1) by (simp_all add: wf_heap_def)
  have r: "setLogLevel level this w = Some ?w'"
    using o assms(2) by (rule setLogLevel_pre_order) simp
  have t: "\<And>n. n < length ?ls \<Longrightarrow>
        threshold ?w' n =
          (if n \<in> set (pre_order ?ls this) then LogLevel_value level else threshold w n)"
    using o h assms(2) by (rule threshold_set_levels)
  have s: "set (pre_order ?ls this) = {d. (this, d) \<in> (child_rel ?ls)\<^sup>*}"
    using o assms(2) by (rule set_pre_order)
  have a: "threshold ?w' a = threshold w a" if "(a, this) \<in> (child_rel ?ls)\<^sup>+" for a
  proof -
    have "a < this" using o that by (rule ancestors_less)
    then have "a < length ?ls" using assms(2) by simp
    moreover have "a \<notin> set (pre_order ?ls this)"
      using o assms(2) that by (rule ancestor_not_below)
    ultimately show ?thesis by (simp add: t)
  qed
  have b: "threshold ?w' s = threshold w s"
    if "(p, this) \<in> child_rel ?ls" "(p, s) \<in> child_rel ?ls" "s \<noteq> this" for p s
  proof -
    have "s < length ?ls" using child_rel_less[OF o that(2)] by simp
    moreover have "s \<notin> set (pre_order ?ls this)"
      using o u assms(2) that by (rule sibling_not_below)
    ultimately show ?thesis by (simp add: t)
  qed
  have l: "loggers ?w' = ?ls" by simp
  from r l t s a b show ?thesis by blast
qed

theorem setLogLevel_changes_exactly_the_subtree_witness:
  "wf_heap \<lparr>loggers = [\<lparr>logger = 0, children = [1, 2]\<rparr>, \<lparr>logger = 1, children = [3]\<rparr>,
                       \<lparr>logger = 2, children = []\<rparr>, \<lparr>logger = 3, children = []\<rparr>],
            pino = \<lparr>handles = [''debug'', ''debug'', ''debug'', ''debug''], calls = []\<rparr>\<rparr> \<and>
   (\<exists>w'. setLogLevel ERROR 1
           \<lparr>loggers = [\<lparr>logger = 0, children = [1, 2]\<rparr>, \<lparr>logger = 1, children = [3]\<rparr>,
                       \<lparr>logger = 2, children = []\<rparr>, \<lparr>logger = 3, children = []\<rparr>],
            pino = \<lparr>handles = [''debug'', ''debug'', ''debug'', ''debug''], calls = []\<rparr>\<rparr> = Some w' \<and>
         map (threshold w') [0, 1, 2, 3] = [''debug'', ''error'', ''debug'', ''error''])"
proof -
  let ?w = "\<lparr>loggers = [\<lparr>logger = 0, children = [1, 2]\<rparr>, \<lparr>logger = 1, children = [3]\<rparr>,
                       \<lparr>logger = 2, children = []\<rparr>, \<lparr>logger = 3, children = []\<rparr>],
            pino = \<lparr>handles = [''debug'', ''debug'', ''debug'', ''debug''], calls = []\<rparr>\<rparr>"
  have wf: "wf_heap ?w" by code_simp
  have l: "1 < length (loggers ?w)" by simp
  have p: "set (pre_order (loggers ?w) 1) = {1, 3}" by (simp add: pre_order.simps)
  have t: "map (threshold ?w) [0, 1, 2, 3] = [''debug'', ''debug'', ''debug'', ''debug'']"
    by (simp add: threshold_def)
  from setLogLevel_changes_exactly_the_subtree[OF wf l, of ERROR]
  obtain w' where w': "setLogLevel ERROR 1 ?w = Some w'"
    "\<forall>n < length (loggers ?w). threshold w' n =
        (if n \<in> set (pre_order (loggers ?w) 1) then LogLevel_value ERROR else threshold ?w n)"
    by blast
  have "threshold w' 0 = ''debug''" "threshold w' 1 = ''error''"
    "threshold w' 2 = ''debug''" "threshold w' 3 = ''error''"
    using w'(2) p t by simp_all
  then have m: "map (threshold w') [0, 1, 2, 3] = [''debug'', ''error'', ''debug'', ''error'']"
    by simp
  have "\<exists>w'. setLogLevel ERROR 1 ?w = Some w' \<and>
         map (threshold w') [0, 1, 2, 3] = [''debug'', ''error'', ''debug'', ''error'']"
    by (rule exI[of _ w']) (rule conjI[OF w'(1) m])
  with wf show ?thesis by (rule conjI)
qed

section \<open>Children lists only grow\<close>

lemma forEach_keeps:
  assumes "\<And>x s s'. x \<in> set xs \<Longrightarrow> f x s = Some s' \<Longrightarrow> g s' = g s"
    and "forEach f xs s = Some s'"
  shows "g s' = g s"
  using assms
proof (induction xs arbitrary: s)
  case Nil
  then show ?case by simp
next
  case (Cons x xs)
  from Cons.prems(2) obtain s1 where s1: "f x s = Some s1" "forEach f xs s1 = Some s'"
    by (auto simp: bind_eq_Some_conv)
  have "g s' = g s1"
  proof (rule Cons.IH)
    show "\<And>y t t'. y \<in> set xs \<Longrightarrow> f y t = Some t' \<Longrightarrow> g t' = g t"
      by (rule Cons.prems(1)) simp_all
    show "forEach f xs s1 = Some s'" by (rule s1(2))
  qed
  moreover have "g s1 = g s" using Cons.prems(1)[of x s s1] s1(1) by simp
  ultimately show ?case by simp
qed

lemma setLogLevel_keeps_loggers:
  fixes w :: "'a heap_scheme"
  assumes "setLogLevel level this w = Some w'"
  shows "loggers w' = loggers w"
proof (rule setLogLevel.raw_induct
    [where P = "\<lambda>_ _ (w :: 'a heap_scheme) w'. loggers w' = loggers w", OF _ assms])
  fix rec level this and w w' :: "'a heap_scheme"
  assume IH: "\<And>a b c y. rec a b c = Some y \<Longrightarrow> loggers y = loggers c"
    and fe: "forEach (rec level) (children (loggers w ! this))
               (w\<lparr>pino := pino_set_level (logger (loggers w ! this)) (LogLevel_value level)
                            (pino w)\<rparr>) = Some w'"
  have "loggers w' =
      loggers (w\<lparr>pino := pino_set_level (logger (loggers w ! this)) (LogLevel_value level)
                           (pino w)\<rparr>)"
    by (rule forEach_keeps[where f = "rec level" and g = loggers, OF IH fe])
  then show "loggers w' = loggers w" by simp
qed

text \<open>
  Claim C9. \<open>child\<close> appends exactly one Logger, the new one, at the end of the caller's
  children list and leaves every other children list as it is; \<open>setLogLevel\<close>, the five
  leveled methods and \<open>getInstance\<close> of either module leave every existing Logger
  object, and so every children list, as it is (\<open>getInstance\<close> may add a new root, which
  has no children).
\<close>

theorem children_lists_only_grow:
  fixes w :: "'a heap_scheme"
  shows
  "(this < length (loggers w) \<longrightarrow>
      (case child this b w of (c, w') \<Rightarrow>
         c = length (loggers w) \<and> length (loggers w') = Suc (length (loggers w)) \<and>
         children (loggers w' ! c) = [] \<and>
         (\<forall>n < length (loggers w).
            children (loggers w' ! n) =
              (if n = this then children (loggers w ! n) @ [c] else children (loggers w ! n))))) \<and>
   (\<forall>w'. setLogLevel level this w = Some w' \<longrightarrow> loggers w' = loggers w) \<and>
   (\<forall>w'. fatal backend this msg args w = Inr w' \<longrightarrow> loggers w' = loggers w) \<and>
   (\<forall>w'. error backend this msg args w = Inr w' \<longrightarrow> loggers w' = loggers w) \<and>
   (\<forall>w'. warn backend this msg args w = Inr w' \<longrightarrow> loggers w' = loggers w) \<and>
   (\<forall>w'. info backend this msg args w = Inr w' \<longrightarrow> loggers w' = loggers w) \<and>
   (\<forall>w'. debug backend this msg args w = Inr w' \<longrightarrow> loggers w' = loggers w) \<and>
   (loggers (snd (getInstance penv s k)) = loggers k \<or>
    (\<exists>h. loggers (snd (getInstance penv s k)) = loggers k @ [\<lparr>logger = h, children = []\<rparr>])) \<and>
   (loggers (snd (getInstance_index_ts path_join penv s m)) = loggers m \<or>
    (\<exists>h. loggers (snd (getInstance_index_ts path_join penv s m)) =
          loggers m @ [\<lparr>logger = h, children = []\<rparr>]))"
proof -
  have c: "this < length (loggers w) \<longrightarrow>
      (case child this b w of (c, w') \<Rightarrow>
         c = length (loggers w) \<and> length (loggers w') = Suc (length (loggers w)) \<and>
         children (loggers w' ! c) = [] \<and>
         (\<forall>n < length (loggers w).
            children (loggers w' ! n) =
              (if n = this then children (loggers w ! n) @ [c] else children (loggers w ! n))))"
    by (simp add: child_unfold nth_list_update nth_append)
  have f: "forward backend x this msg args w = Inr w' \<Longrightarrow> loggers w' = loggers w" for x w'
    by (auto simp: forward_def split: sum.splits)
  have g: "loggers (snd (getInstance penv s k)) = loggers k \<or>
    (\<exists>h. loggers (snd (getInstance penv s k)) = loggers k @ [\<lparr>logger = h, children = []\<rparr>])"
    using loggers_getInstance[of penv s k] by blast
  have i: "loggers (snd (getInstance_index_ts path_join penv s m)) = loggers m \<or>
    (\<exists>h. loggers (snd (getInstance_index_ts path_join penv s m)) =
          loggers m @ [\<lparr>logger = h, children = []\<rparr>])"
    using loggers_getInstance_index_ts[of path_join penv s m] by blast
  show ?thesis
    using c f g i setLogLevel_keeps_loggers[of level this w]
    unfolding fatal_def error_def warn_def info_def debug_def
    by blast
qed

theorem children_lists_only_grow_witness:
  "(case child 0 [(''name'', JStr ''modC'')]
           \<lparr>loggers = [\<lparr>logger = 0, children = [1, 2]\<rparr>, \<lparr>logger = 1, children = [3]\<rparr>,
                       \<lparr>logger = 2, children = []\<rparr>, \<lparr>logger = 3, children = []\<rparr>],
            pino = \<lparr>handles = [''debug'', ''debug'', ''debug'', ''debug''], calls = []\<rparr>\<rparr> of
      (c, w') \<Rightarrow> c = 4 \<and> map children (loggers w') = [[1, 2, 4], [3], [], [], []]) \<and>
   (\<exists>w'. setLogLevel WARN 0
           \<lparr>loggers = [\<lparr>logger = 0, children = [1, 2]\<rparr>, \<lparr>logger = 1, children = [3]\<rparr>,
                       \<lparr>logger = 2, children = []\<rparr>, \<lparr>logger = 3, children = []\<rparr>],
            pino = \<lparr>handles = [''debug'', ''debug'', ''debug'', ''debug''], calls = []\<rparr>\<rparr> = Some w' \<and>
         map children (loggers w') = [[1, 2], [3], [], []]) \<and>
   (\<exists>w'. info pino_recording 0 ''started'' [JNum 1]
           \<lparr>loggers = [\<lparr>logger = 0, children = [1, 2]\<rparr>, \<lparr>logger = 1, children = [3]\<rparr>,
                       \<lparr>logger = 2, children = []\<rparr>, \<lparr>logger = 3, children = []\<rparr>],
            pino = \<lparr>handles = [''debug'', ''debug'', ''debug'', ''debug''], calls = []\<rparr>\<rparr> = Inr w' \<and>
         map children (loggers w') = [[1, 2], [3], [], []])"
proof -
  let ?w = "\<lparr>loggers = [\<lparr>logger = 0, children = [1, 2]\<rparr>, \<lparr>logger = 1, children = [3]\<rparr>,
                       \<lparr>logger = 2, children = []\<rparr>, \<lparr>logger = 3, children = []\<rparr>],
            pino = \<lparr>handles = [''debug'', ''debug'', ''debug'', ''debug''], calls = []\<rparr>\<rparr>"
  note g = children_lists_only_grow[where w = ?w and this = 0 and level = WARN
      and backend = pino_recording and msg = "''started''" and args = "[JNum 1]"
      and b = "[(''name'', JStr ''modC'')]"]
  have wf: "wf_heap ?w" by code_simp
  have "ordered (loggers ?w)" using wf by (simp add: wf_heap_def)
  then obtain w1 where w1: "setLogLevel WARN 0 ?w = Some w1"
    using setLogLevel_pre_order[of "loggers ?w" 0 ?w WARN] by simp
  have "loggers w1 = loggers ?w"
    by (rule g[THEN conjunct2, THEN conjunct1, rule_format, OF w1])
  from this have s: "map children (loggers w1) = [[1, 2], [3], [], []]" by simp
  obtain w2 where w2: "info pino_recording 0 ''started'' [JNum 1] ?w = Inr w2"
    by (simp add: info_def forward_def pino_recording_def)
  have "loggers w2 = loggers ?w"
    by (rule g[THEN conjunct2, THEN conjunct2, THEN conjunct2, THEN conjunct2, THEN conjunct2,
          THEN conjunct1, rule_format, OF w2])
  from this have i: "map children (loggers w2) = [[1, 2], [3], [], []]" by simp
  have c: "case child 0 [(''name'', JStr ''modC'')] ?w of
      (c, w') \<Rightarrow> c = 4 \<and> map children (loggers w') = [[1, 2, 4], [3], [], [], []]"
    using g[THEN conjunct1] by (simp add: child_unfold)
  have e1: "\<exists>w'. setLogLevel WARN 0 ?w = Some w' \<and>
         map children (loggers w') = [[1, 2], [3], [], []]"
    by (rule exI[of _ w1]) (rule conjI[OF w1 s])
  have e2: "\<exists>w'. info pino_recording 0 ''started'' [JNum 1] ?w = Inr w' \<and>
         map children (loggers w') = [[1, 2], [3], [], []]"
    by (rule exI[of _ w2]) (rule conjI[OF w2 i])
  show ?thesis by (rule conjI[OF c conjI[OF e1 e2]])
qed

section \<open>Reachable states are well-formed\<close>

lemma registry_ok_grow:
  assumes "registry_ok k" and "instances k' = instances k"
    and "length (loggers k) \<le> length (loggers k')"
  shows "registry_ok k'"
proof -
  have "\<forall>r \<in> set (map snd (instances k)). r < length (loggers k')"
  proof
    fix r assume "r \<in> set (map snd (instances k))"
    with assms(1) have "r < length (loggers k)" unfolding registry_ok_def by blast
    with assms(3) show "r < length (loggers k')" by simp
  qed
  with assms(1) show ?thesis unfolding registry_ok_def assms(2) by blast
qed

theorem reachable_well_formed: "reachable k \<Longrightarrow> wf_heap k \<and> registry_ok k"
proof (induction rule: reachable.induct)
  case (load path_join cwd penv)
  have "registry_ok (load_keyed_module path_join cwd penv)"
    by (simp add: registry_ok_def load_keyed_module_def Let_def)
  with wf_heap_load(1)[of path_join cwd penv] show ?case by (rule conjI)
next
  case (getInstance k penv serviceName)
  then have wf: "wf_heap k" and ok: "registry_ok k" by simp_all
  have "wf_heap (snd (getInstance penv serviceName k))"
    using wf by (rule wf_heap_getInstance)
  moreover have "registry_ok (snd (getInstance penv serviceName k))"
    using ok by (rule registry_ok_getInstance)
  ultimately show ?case by (rule conjI)
next
  case (child k this b)
  then have wf: "wf_heap k" and ok: "registry_ok k" by simp_all
  have "registry_ok (snd (child this b k))"
    using ok by (rule registry_ok_grow) (simp_all add: child_unfold)
  moreover have "wf_heap (snd (child this b k))" using wf child.hyps(2) by (rule wf_heap_child)
  ultimately show ?case by simp
next
  case (setLogLevel k this level k')
  then have wf: "wf_heap k" and ok: "registry_ok k" by simp_all
  have l: "loggers k' = loggers k" using setLogLevel.hyps(3) by (rule setLogLevel_keeps_loggers)
  have "ordered (loggers k)" using wf by (simp add: wf_heap_def)
  then have "setLogLevel level this k =
      Some (k\<lparr>pino := set_levels (loggers k) (LogLevel_value level)
                         (pre_order (loggers k) this) (pino k)\<rparr>)"
    using setLogLevel.hyps(2) by (rule setLogLevel_pre_order) simp
  with setLogLevel.hyps(3) have i: "instances k' = instances k" by auto
  have "registry_ok k'" using ok i by (rule registry_ok_grow) (simp add: l)
  moreover have "wf_heap k'"
    using wf setLogLevel.hyps(2,3) by (rule wf_heap_setLogLevel)
  ultimately show ?case by simp
next
  case (leveled k this m msg args k')
  then have wf: "wf_heap k" and ok: "registry_ok k" by simp_all
  from leveled.hyps(3) have e: "k' = k\<lparr>pino := (pino k)\<lparr>calls := calls (pino k) @
             [Call_method m (logger (loggers k ! this)) msg args]\<rparr>\<rparr>"
    by (simp add: forward_def pino_recording_def)
  have "registry_ok k'" using ok by (rule registry_ok_grow) (simp_all add: e)
  moreover have "wf_heap k'"
    using wf leveled.hyps(3) by (rule wf_heap_forward)
  ultimately show ?case by simp
qed

theorem reachable_index_ts_well_formed: "reachable_index_ts k \<Longrightarrow> wf_heap k"
proof (induction rule: reachable_index_ts.induct)
  case (load pkg_name dir)
  show ?case by (rule wf_heap_load(2))
next
  case (getInstance k path_join penv serviceName)
  from getInstance.IH show ?case by (rule wf_heap_getInstance_index_ts)
next
  case (child k this b)
  from child.IH child.hyps(2) show ?case by (rule wf_heap_child)
next
  case (setLogLevel k this level k')
  from setLogLevel.IH setLogLevel.hyps(2,3) show ?case by (rule wf_heap_setLogLevel)
next
  case (leveled k this m msg args k')
  from leveled.IH leveled.hyps(3) show ?case by (rule wf_heap_forward)
qed

end
